theory Spec2Isabelle
  imports Complex_Main
begin

section \<open>Strings\<close>

text \<open>
  A Python string is the list of its code points, so every character of a \<open>str\<close> has a
  value in the model. The literals of the source are written with \<open>py\<close> and single
  characters with \<open>ch\<close>.
\<close>

type_synonym str = "nat list"

abbreviation ch :: "char \<Rightarrow> nat" where
  "ch c \<equiv> of_char c"

abbreviation py :: "string \<Rightarrow> str" where
  "py s \<equiv> map of_char s"

definition startswith :: "str \<Rightarrow> str \<Rightarrow> bool" where
  "startswith s p = (take (length p) s = p)"

text \<open>
  A pattern compiled with \<open>re.IGNORECASE\<close> compares a character of the text with an ASCII
  character of the pattern after folding the character of the text. Beside the capital
  letters \<open>A\<close> to \<open>Z\<close>, Python's matcher folds U+0130 and U+0131 to \<open>i\<close>, U+017F to \<open>s\<close> and
  U+212A to \<open>k\<close>; no other character matches an ASCII character that it is not.
\<close>

definition fold_case :: "nat \<Rightarrow> nat" where
  "fold_case c =
     (if ch (CHR ''A'') \<le> c \<and> c \<le> ch (CHR ''Z'') then c + 32
      else if c = 0x130 \<or> c = 0x131 then ch (CHR ''i'')
      else if c = 0x17F then ch (CHR ''s'')
      else if c = 0x212A then ch (CHR ''k'')
      else c)"

text \<open>A literal of a pattern compiled with \<open>re.IGNORECASE\<close>, matched at the start of \<open>s\<close>;
  the literal is given in lower case.\<close>

definition match_ci :: "str \<Rightarrow> str \<Rightarrow> bool" where
  "match_ci lit s = (map fold_case (take (length lit) s) = lit)"

section \<open>URL validation (\<open>_is_valid_image_url\<close>)\<close>

definition image_exts :: "str list" where
  "image_exts = [py ''png'', py ''jpg'', py ''jpeg'', py ''webp'', py ''gif'']"

text \<open>The tail \<open>(?:$|[?&#])\<close> of the extension pattern. Python's \<open>$\<close> matches at the end
  of the string and also just before a newline that ends the string.\<close>

definition ext_boundary :: "str \<Rightarrow> bool" where
  "ext_boundary r =
     (case r of
        [] \<Rightarrow> True
      | c # cs \<Rightarrow> (c = ch (CHR 0x0A) \<and> cs = []) \<or> c = ch (CHR ''?'') \<or> c = ch (CHR ''&'') \<or> c = ch (CHR ''#''))"

text \<open>\<open>(png|jpg|jpeg|webp|gif)(?:$|[?&#])\<close> matched right after a dot: the alternatives
  are tried in turn, so a match exists when one alternative is followed by the boundary.\<close>

definition ext_at :: "str \<Rightarrow> bool" where
  "ext_at s = list_ex (\<lambda>e. match_ci e s \<and> ext_boundary (drop (length e) s)) image_exts"

text \<open>\<open>re.search(r'\.(png|jpg|jpeg|webp|gif)(?:$|[?&#])', url, re.IGNORECASE)\<close>: the
  pattern is tried at every position.\<close>

fun search_ext :: "str \<Rightarrow> bool" where
  "search_ext [] = False"
| "search_ext (c # cs) = ((c = ch (CHR ''.'') \<and> ext_at cs) \<or> search_ext cs)"

definition invalid_chars :: "nat list" where
  "invalid_chars = [ch (CHR ''<''), ch (CHR ''>''), ch (CHR 0x22), ch (CHR 0x27), ch (CHR 0x0A), ch (CHR 0x0D), ch (CHR 0x09)]"

definition is_valid_image_url :: "str \<Rightarrow> bool \<Rightarrow> bool" where
  "is_valid_image_url url require_extension =
     (if length url < 10 then False
      else if \<not> (startswith url (py ''http://'') \<or> startswith url (py ''https://'')) then False
      else if require_extension \<and> \<not> search_ext url then False
      else if list_ex (\<lambda>c. c \<in> set url) invalid_chars then False
      else True)"

text \<open>
  The specification asks more of a URL when an extension is required: the URL must end in
  an image extension, optionally followed by a query or a fragment. Written out: the URL
  up to its first \<open>?\<close> or \<open>#\<close> ends in a dot and one of the extensions, in any case. This
  predicate is used to compare the specification with \<open>_is_valid_image_url\<close>.
\<close>

definition spec_ends_in_extension :: "str \<Rightarrow> bool" where
  "spec_ends_in_extension url =
     (let path = takeWhile (\<lambda>c. c \<noteq> ch (CHR ''?'') \<and> c \<noteq> ch (CHR ''#'')) url
      in list_ex (\<lambda>e. Suc (length e) \<le> length path \<and>
                        map fold_case (drop (length path - Suc (length e)) path) = ch (CHR ''.'') # e)
           image_exts)"

section \<open>Pattern matching on text\<close>

text \<open>
  The patterns of the parser are built from single characters, sequence, ordered
  alternatives and a greedy repetition of a character class. Python's matcher backtracks:
  it tries the alternatives in order and a repetition from its longest run down. The
  model lists, in that order, the rest of the text after every way a pattern can match at
  the start of the text; the first entry is the match Python reports.
\<close>

datatype rx =
    Chr "nat \<Rightarrow> bool"
  | Eps
  | Seq rx rx
  | Alt rx rx
  | Star "nat \<Rightarrow> bool"

fun star_matches :: "(nat \<Rightarrow> bool) \<Rightarrow> str \<Rightarrow> str list" where
  "star_matches p [] = [[]]"
| "star_matches p (c # cs) = (if p c then star_matches p cs @ [c # cs] else [c # cs])"

fun rx_match :: "rx \<Rightarrow> str \<Rightarrow> str list" where
  "rx_match (Chr p) s = (case s of [] \<Rightarrow> [] | c # cs \<Rightarrow> if p c then [cs] else [])"
| "rx_match Eps s = [s]"
| "rx_match (Seq a b) s = concat (map (rx_match b) (rx_match a s))"
| "rx_match (Alt a b) s = rx_match a s @ rx_match b s"
| "rx_match (Star p) s = star_matches p s"

definition lit :: "str \<Rightarrow> rx" where
  "lit s = foldr (\<lambda>c r. Seq (Chr (\<lambda>x. fold_case x = c)) r) s Eps"

definition plus :: "(nat \<Rightarrow> bool) \<Rightarrow> rx" where
  "plus p = Seq (Chr p) (Star p)"

definition opt :: "rx \<Rightarrow> rx" where
  "opt r = Alt r Eps"

definition alts :: "str list \<Rightarrow> rx" where
  "alts ws = foldr (\<lambda>w r. Alt (lit w) r) (butlast ws) (lit (last ws))"

text \<open>A pattern with one group, split into the part before the group, the group and the
  part after it. The result is the text of the group and the text left after the match.\<close>

definition match_at :: "rx \<Rightarrow> rx \<Rightarrow> rx \<Rightarrow> str \<Rightarrow> (str \<times> str) option" where
  "match_at pre grp post s =
     (case concat (map (\<lambda>s1. concat (map (\<lambda>s2.
              map (\<lambda>s3. (take (length s1 - length s2) s1, s3)) (rx_match post s2))
            (rx_match grp s1))) (rx_match pre s)) of
        [] \<Rightarrow> None
      | r # _ \<Rightarrow> Some r)"

text \<open>\<open>re.findall\<close>: the matches from left to right, each search starting where the last
  match ended. None of the patterns below matches the empty text; after an empty match
  the scan moves on by one character.\<close>

function findall :: "rx \<Rightarrow> rx \<Rightarrow> rx \<Rightarrow> str \<Rightarrow> str list" where
  "findall pre grp post s =
     (case match_at pre grp post s of
        Some (cap, rest) \<Rightarrow>
          cap # (if length rest < length s then findall pre grp post rest
                 else if s = [] then [] else findall pre grp post (tl s))
      | None \<Rightarrow> if s = [] then [] else findall pre grp post (tl s))"
  by pat_completeness auto
termination
  by (relation "measure (\<lambda>(pre, grp, post, s). length s)") auto

declare findall.simps [simp del]

definition is_quote :: "nat \<Rightarrow> bool" where
  "is_quote c = (c = ch (CHR 0x22) \<or> c = ch (CHR 0x27))"

text \<open>\<open>\s\<close> of a Python 3 text pattern, which is also what \<open>str.strip\<close> removes: the
  characters for which \<open>str.isspace\<close> holds.\<close>

definition is_space :: "nat \<Rightarrow> bool" where
  "is_space c =
     (c \<in> {0x09, 0x0A, 0x0B, 0x0C, 0x0D, 0x1C, 0x1D, 0x1E, 0x1F, 0x20, 0x85, 0xA0, 0x1680,
            0x2028, 0x2029, 0x202F, 0x205F, 0x3000} \<or>
      (0x2000 \<le> c \<and> c \<le> 0x200A))"

text \<open>The class \<open>[^\s<>"')\]}]\<close> of the direct URL pattern.\<close>

definition url_char :: "nat \<Rightarrow> bool" where
  "url_char c = (\<not> is_space c \<and> c \<notin> set [ch (CHR ''<''), ch (CHR ''>''), ch (CHR 0x22), ch (CHR 0x27),
                    ch (CHR '')''), ch (CHR '']''), ch (CHR ''}'')])"

text \<open>The class \<open>[A-Za-z0-9+/=]\<close> of a pattern compiled with \<open>re.IGNORECASE\<close>.\<close>

definition b64_char :: "nat \<Rightarrow> bool" where
  "b64_char c =
     (fold_case c \<in>
        set (py ''ABCDEFGHIJKLMNOPQRSTUVWXYZabcdefghijklmnopqrstuvwxyz0123456789+/=''))"

text \<open>\<open><img[^>]*src=["']([^"']+)["'][^>]*>\<close>, ignoring case.\<close>

definition html_srcs :: "str \<Rightarrow> str list" where
  "html_srcs content =
     findall
       (Seq (lit (py ''<img'')) (Seq (Star (\<lambda>c. c \<noteq> ch (CHR ''>''))) (Seq (lit (py ''src='')) (Chr is_quote))))
       (plus (\<lambda>c. \<not> is_quote c))
       (Seq (Chr is_quote) (Seq (Star (\<lambda>c. c \<noteq> ch (CHR ''>''))) (Chr (\<lambda>c. c = ch (CHR ''>'')))))
       content"

text \<open>\<open>!\[[^\]]*\]\(([^\)]+)\)\<close>.\<close>

definition md_refs :: "str \<Rightarrow> str list" where
  "md_refs content =
     findall
       (Seq (lit (py ''!['')) (Seq (Star (\<lambda>c. c \<noteq> ch (CHR '']''))) (lit (py ''](''))))
       (plus (\<lambda>c. c \<noteq> ch (CHR '')'')))
       (Chr (\<lambda>c. c = ch (CHR '')'')))
       content"

text \<open>\<open>(https?://[^\s<>"')\]}]+\.(?:png|jpg|jpeg|webp|gif)(?:\?[^\s<>"')\]}]*)?)\<close>,
  ignoring case.\<close>

definition direct_urls :: "str \<Rightarrow> str list" where
  "direct_urls content =
     findall Eps
       (Seq (lit (py ''http'')) (Seq (opt (lit (py ''s''))) (Seq (lit (py ''://'')) (Seq (plus url_char)
          (Seq (lit (py ''.'')) (Seq (alts [py ''png'', py ''jpg'', py ''jpeg'', py ''webp'', py ''gif''])
             (opt (Seq (lit (py ''?'')) (Star url_char)))))))))
       Eps
       content"

text \<open>\<open>(data:image/(?:png|jpeg|jpg|webp|gif);base64,[A-Za-z0-9+/=]+)\<close>, ignoring case.\<close>

definition data_uris :: "str \<Rightarrow> str list" where
  "data_uris content =
     findall Eps
       (Seq (lit (py ''data:image/'')) (Seq (alts [py ''png'', py ''jpeg'', py ''jpg'', py ''webp'', py ''gif''])
          (Seq (lit (py '';base64,'')) (plus b64_char))))
       Eps
       content"

definition extract_image_urls_from_text :: "str \<Rightarrow> str list" where
  "extract_image_urls_from_text content =
     (if content = [] then []
      else filter (\<lambda>m. is_valid_image_url m False) (html_srcs content)
         @ filter (\<lambda>m. is_valid_image_url m False) (md_refs content)
         @ filter (\<lambda>m. is_valid_image_url m True) (direct_urls content))"

definition extract_data_urls_from_text :: "str \<Rightarrow> str list" where
  "extract_data_urls_from_text content = (if content = [] then [] else data_uris content)"

section \<open>The response parser (\<open>_extract_image_results\<close>)\<close>

text \<open>
  The decoded body of a response: what \<open>json.loads\<close> returns. An object is the \<open>dict\<close>
  it built, given by its entries; a key is looked up with \<^const>\<open>map_of\<close>.
\<close>

datatype json =
    JNull
  | JBool bool
  | JNum real
  | JStr str
  | JArr "json list"
  | JObj "(str \<times> json) list"

text \<open>\<open>d.get(key)\<close>: \<open>None\<close> for a key that is not there.\<close>

definition dict_get :: "(str \<times> json) list \<Rightarrow> str \<Rightarrow> json" where
  "dict_get d k = (case map_of d k of None \<Rightarrow> JNull | Some v \<Rightarrow> v)"

datatype py_exn =
    AttributeError
  | TypeError
  | TimeoutError
  | RuntimeError
  | NotAValidUrl  \<comment> \<open>the \<open>Exception("not a valid url")\<close> of \<open>Image.fromURL\<close>\<close>

datatype parse_error =
    InvalidFormat            \<comment> \<open>the response is not an object\<close>
  | NoValidImage             \<comment> \<open>no image could be extracted from the response\<close>
  | ExtractionFailed py_exn  \<comment> \<open>an exception was caught while extracting\<close>

text \<open>The loop over the items of the top-level \<open>data\<close> list; it appends to \<open>image_urls\<close>
  and to \<open>data_urls\<close>.\<close>

fun data_items :: "json list \<Rightarrow> str list \<times> str list \<Rightarrow> str list \<times> str list" where
  "data_items [] acc = acc"
| "data_items (item # items) (image_urls, data_urls) =
     (case item of
        JObj d \<Rightarrow>
          data_items items
            ((case dict_get d (py ''url'') of
                JStr url \<Rightarrow> if is_valid_image_url url False then image_urls @ [url] else image_urls
              | _ \<Rightarrow> image_urls),
             (case dict_get d (py ''b64_json'') of
                JStr b64_json \<Rightarrow>
                  if b64_json \<noteq> [] then data_urls @ [py ''data:image/png;base64,'' @ b64_json]
                  else data_urls
              | _ \<Rightarrow> data_urls))
      | _ \<Rightarrow> data_items items (image_urls, data_urls))"

text \<open>The URL of a content part of type \<open>image_url\<close>.\<close>

definition part_image_url :: "(str \<times> json) list \<Rightarrow> json" where
  "part_image_url part =
     (case dict_get part (py ''image_url'') of
        JObj image_url_field \<Rightarrow> dict_get image_url_field (py ''url'')
      | _ \<Rightarrow> (case dict_get part (py ''url'') of JStr url \<Rightarrow> JStr url | _ \<Rightarrow> JNull))"

text \<open>The loop over a structured message content; it appends to \<open>image_urls\<close> and to
  \<open>text_parts\<close>.\<close>

fun content_parts :: "json list \<Rightarrow> str list \<times> str list \<Rightarrow> str list \<times> str list" where
  "content_parts [] acc = acc"
| "content_parts (part # parts) (image_urls, text_parts) =
     (case part of
        JObj d \<Rightarrow>
          content_parts parts
            ((if dict_get d (py ''type'') = JStr (py ''image_url'') then
                (case part_image_url d of
                   JStr image_url \<Rightarrow>
                     if is_valid_image_url image_url False then image_urls @ [image_url]
                     else image_urls
                 | _ \<Rightarrow> image_urls)
              else image_urls),
             (if dict_get d (py ''type'') = JStr (py ''text'') then
                (case dict_get d (py ''text'') of JStr t \<Rightarrow> text_parts @ [t] | _ \<Rightarrow> text_parts)
              else text_parts))
      | _ \<Rightarrow> content_parts parts (image_urls, text_parts))"

text \<open>\<open>"\n".join(text_parts)\<close>.\<close>

fun join_lines :: "str list \<Rightarrow> str" where
  "join_lines [] = []"
| "join_lines [t] = t"
| "join_lines (t # ts) = t @ [ch (CHR 0x0A)] @ join_lines ts"

text \<open>The loop over the items of one attachment-like list of the message.\<close>

fun attachment_items :: "json list \<Rightarrow> str list \<Rightarrow> str list" where
  "attachment_items [] image_urls = image_urls"
| "attachment_items (item # items) image_urls =
     (case item of
        JObj d \<Rightarrow>
          (case dict_get d (py ''url'') of
             JStr url \<Rightarrow>
               attachment_items items
                 (if is_valid_image_url url False then image_urls @ [url] else image_urls)
           | _ \<Rightarrow> attachment_items items image_urls)
      | _ \<Rightarrow> attachment_items items image_urls)"

fun attachment_fields :: "(str \<times> json) list \<Rightarrow> str list \<Rightarrow> str list \<Rightarrow> str list" where
  "attachment_fields message [] image_urls = image_urls"
| "attachment_fields message (field # fields) image_urls =
     attachment_fields message fields
       (case dict_get message field of
          JArr items \<Rightarrow> attachment_items items image_urls
        | _ \<Rightarrow> image_urls)"

text \<open>The first entry of a non-empty \<open>choices\<close> list, \<open>None\<close> otherwise.\<close>

definition first_choice :: "(str \<times> json) list \<Rightarrow> json" where
  "first_choice response_data =
     (case map_of response_data (py ''choices'') of
        Some (JArr (choice # _)) \<Rightarrow> choice
      | _ \<Rightarrow> JNull)"

text \<open>What the message of the first choice adds. \<open>choice.get("message", {})\<close> is the empty
  object only when the key is missing; on a message that is not an object,
  \<open>message.get\<close> raises \<open>AttributeError\<close>.\<close>

definition message_results ::
  "(str \<times> json) list \<Rightarrow> str list \<times> str list \<Rightarrow> py_exn + (str list \<times> str list)" where
  "message_results choice acc =
     (case (case map_of choice (py ''message'') of None \<Rightarrow> JObj [] | Some m \<Rightarrow> m) of
        JObj message \<Rightarrow>
          (case
             (case dict_get message (py ''content'') of
                JArr content \<Rightarrow>
                  (case content_parts content (fst acc, []) of
                     (image_urls, text_parts) \<Rightarrow>
                       if text_parts \<noteq> [] then
                         (image_urls @ extract_image_urls_from_text (join_lines text_parts),
                          snd acc @ extract_data_urls_from_text (join_lines text_parts))
                       else (image_urls, snd acc))
              | JStr content \<Rightarrow>
                  (fst acc @ extract_image_urls_from_text content,
                   snd acc @ extract_data_urls_from_text content)
              | _ \<Rightarrow> acc) of
             (image_urls, data_urls) \<Rightarrow>
               Inr (attachment_fields message
                      [py ''attachments'', py ''media'', py ''files'', py ''images''] image_urls,
                    data_urls))
      | _ \<Rightarrow> Inl AttributeError)"

text \<open>Everything the parser collects from a response object, before duplicates are
  removed.\<close>

definition collect_image_results ::
  "(str \<times> json) list \<Rightarrow> py_exn + (str list \<times> str list)" where
  "collect_image_results response_data =
     (case first_choice response_data of
        JObj choice \<Rightarrow>
          message_results choice
            (case dict_get response_data (py ''data'') of
               JArr data_field \<Rightarrow> data_items data_field ([], [])
             | _ \<Rightarrow> ([], []))
      | _ \<Rightarrow>
          Inr (case dict_get response_data (py ''data'') of
                 JArr data_field \<Rightarrow> data_items data_field ([], [])
               | _ \<Rightarrow> ([], [])))"

text \<open>\<open>_dedupe_preserve\<close>: the loop with its set \<open>seen\<close> and its list \<open>result\<close>.\<close>

fun dedupe_loop :: "str list \<Rightarrow> str set \<Rightarrow> str list \<Rightarrow> str list" where
  "dedupe_loop [] seen result = result"
| "dedupe_loop (item # items) seen result =
     (if item = [] \<or> item \<in> seen then dedupe_loop items seen result
      else dedupe_loop items (insert item seen) (result @ [item]))"

definition dedupe_preserve :: "str list \<Rightarrow> str list" where
  "dedupe_preserve items = dedupe_loop items {} []"

definition extract_image_results ::
  "json \<Rightarrow> str list \<times> str list \<times> parse_error option" where
  "extract_image_results response_data =
     (case response_data of
        JObj d \<Rightarrow>
          (case collect_image_results d of
             Inl e \<Rightarrow> ([], [], Some (ExtractionFailed e))
           | Inr (image_urls, data_urls) \<Rightarrow>
               if dedupe_preserve image_urls = [] \<and> dedupe_preserve data_urls = []
               then ([], [], Some NoValidImage)
               else (dedupe_preserve image_urls, dedupe_preserve data_urls, None))
      | _ \<Rightarrow> ([], [], Some InvalidFormat))"

section \<open>Configuration and plugin state\<close>

text \<open>
  The rate-limit settings are read from the configuration as they are, so they may hold a
  value that is not a number; comparing a number with such a value raises \<open>TypeError\<close>.
\<close>

datatype cfg_value = CInt int | CFloat real | CStr str | CNone

record config =
  api_key :: str
  model_id :: str
  enabled :: bool
  prompt_prefix :: str
  status_message_mode :: str
  max_retry_attempts :: int
  group_control_mode :: str
  group_list :: "str list"
  rate_limit_enabled :: bool
  rate_limit_window_seconds :: cfg_value
  rate_limit_max_calls :: cfg_value
  max_images_per_response :: int

text \<open>The values \<open>__init__\<close> falls back to when the configuration gives none. The default
  prompt prefix is a fixed sentence that is not reproduced here; it is left empty.\<close>

definition default_config :: config where
  "default_config =
     \<lparr>api_key = [], model_id = py ''grok-imagine-0.9'', enabled = True, prompt_prefix = [],
      status_message_mode = py ''minimal'', max_retry_attempts = 3, group_control_mode = py ''off'',
      group_list = [], rate_limit_enabled = True, rate_limit_window_seconds = CInt 3600,
      rate_limit_max_calls = CInt 5, max_images_per_response = 4\<rparr>"

text \<open>\<open>_rate_limit_bucket\<close> maps a group id to its window start and call count;
  \<open>_processing_tasks\<close> maps a user id to the id of the user's task.\<close>

record plugin_state =
  rate_limit_bucket :: "str \<rightharpoonup> real \<times> int"
  processing_tasks :: "str \<rightharpoonup> str"

text \<open>What the handlers read from a message event: \<open>get_group_id()\<close> raises or returns
  \<open>None\<close> or a string; \<open>get_sender_id()\<close> as a string.\<close>

record message_event =
  get_group_id :: "py_exn + str option"
  get_sender_id :: str

section \<open>The access gate (\<open>_check_group_access\<close>)\<close>

datatype denial =
    NotAuthorized                    \<comment> \<open>the group is not on the whitelist\<close>
  | Restricted                       \<comment> \<open>the group is on the blacklist\<close>
  | RateLimited cfg_value cfg_value  \<comment> \<open>the limit is reached; the text gives
                                          \<open>rate_limit_max_calls\<close> and \<open>rate_limit_window_seconds\<close>\<close>

text \<open>\<open>x >= v\<close> for a number \<open>x\<close> and a configured value \<open>v\<close>.\<close>

definition ge_cfg :: "real \<Rightarrow> cfg_value \<Rightarrow> py_exn + bool" where
  "ge_cfg x v =
     (case v of
        CInt n \<Rightarrow> Inr (real_of_int n \<le> x)
      | CFloat r \<Rightarrow> Inr (r \<le> x)
      | CStr _ \<Rightarrow> Inl TypeError
      | CNone \<Rightarrow> Inl TypeError)"

text \<open>The block run under the lock of the group. It has no suspension point, so it runs
  as one step; \<open>now\<close> is the value of \<open>time.time()\<close> it reads.\<close>

definition rate_limit_check ::
  "config \<Rightarrow> plugin_state \<Rightarrow> str \<Rightarrow> real \<Rightarrow> py_exn + (denial option \<times> plugin_state)" where
  "rate_limit_check cfg st group_id now =
     (case (case rate_limit_bucket st group_id of None \<Rightarrow> (now, 0) | Some bucket \<Rightarrow> bucket) of
        (window_start, count) \<Rightarrow>
          (case ge_cfg (now - window_start) (rate_limit_window_seconds cfg) of
             Inl e \<Rightarrow> Inl e
           | Inr expired \<Rightarrow>
               (case (if expired then (now, 0) else (window_start, count)) of
                  (window_start', count') \<Rightarrow>
                    (case ge_cfg (real_of_int count') (rate_limit_max_calls cfg) of
                       Inl e \<Rightarrow> Inl e
                     | Inr reached \<Rightarrow>
                         if reached then
                           Inr (Some (RateLimited (rate_limit_max_calls cfg)
                                        (rate_limit_window_seconds cfg)), st)
                         else
                           Inr (None, st\<lparr>rate_limit_bucket :=
                                  (rate_limit_bucket st)(group_id \<mapsto> (window_start', count' + 1))\<rparr>)))))"

text \<open>The body of the outer \<open>try\<close>.\<close>

definition check_group_access_body ::
  "config \<Rightarrow> plugin_state \<Rightarrow> message_event \<Rightarrow> real \<Rightarrow> py_exn + (denial option \<times> plugin_state)" where
  "check_group_access_body cfg st event now =
     (case (case get_group_id event of Inl _ \<Rightarrow> None | Inr g \<Rightarrow> g) of
        None \<Rightarrow> Inr (None, st)
      | Some group_id \<Rightarrow>
          if group_id = [] then Inr (None, st)
          else if group_control_mode cfg = py ''whitelist'' \<and> group_id \<notin> set (group_list cfg)
            then Inr (Some NotAuthorized, st)
          else if group_control_mode cfg = py ''blacklist'' \<and> group_id \<in> set (group_list cfg)
            then Inr (Some Restricted, st)
          else if rate_limit_enabled cfg then rate_limit_check cfg st group_id now
          else Inr (None, st))"

definition check_group_access ::
  "config \<Rightarrow> plugin_state \<Rightarrow> message_event \<Rightarrow> real \<Rightarrow> denial option \<times> plugin_state" where
  "check_group_access cfg st event now =
     (case check_group_access_body cfg st event now of
        Inl e \<Rightarrow> (None, st)
      | Inr r \<Rightarrow> r)"


section \<open>The API client (\<open>_call_grok_api\<close>)\<close>

datatype api_error =
    NoApiKey
  | ParseFailed parse_error
  | NoValidLinks
  | JsonDecodeFailed
  | AccessDenied
  | RequestFailed int
  | RequestTimeout
  | RequestException
  | AllRetriesFailed

text \<open>What one \<open>client.post\<close> does: it returns a response, with its status code and its
  body (\<open>None\<close> when \<open>response.json()\<close> raises \<open>JSONDecodeError\<close>), or it raises
  \<open>httpx.TimeoutException\<close> or another exception.\<close>

datatype post_outcome =
    Response int "json option"
  | PostTimeout
  | PostError

text \<open>The upstream: the outcome of a POST, given the payload and the attempt number.\<close>

type_synonym upstream = "json \<Rightarrow> nat \<Rightarrow> post_outcome"

type_synonym api_result = "str list \<times> str list \<times> api_error option"

text \<open>\<open>str.strip()\<close>.\<close>

definition strip :: "str \<Rightarrow> str" where
  "strip s = rev (dropWhile is_space (rev (dropWhile is_space s)))"

definition final_prompt :: "config \<Rightarrow> str \<Rightarrow> str" where
  "final_prompt cfg prompt =
     (if prompt_prefix cfg \<noteq> [] then
        (if strip prompt \<noteq> [] then prompt_prefix cfg @ [ch (CHR 0x0A)] @ strip prompt
         else prompt_prefix cfg)
      else strip prompt)"

definition request_payload :: "config \<Rightarrow> str \<Rightarrow> str \<Rightarrow> json" where
  "request_payload cfg prompt image_base64 =
     JObj [(py ''model'', JStr (model_id cfg)),
           (py ''messages'', JArr [JObj
              [(py ''role'', JStr (py ''user'')),
               (py ''content'', JArr
                  [JObj [(py ''type'', JStr (py ''text'')), (py ''text'', JStr (final_prompt cfg prompt))],
                   JObj [(py ''type'', JStr (py ''image_url'')),
                         (py ''image_url'', JObj [(py ''url'', JStr image_base64)])]])]])]"

text \<open>The loop \<open>for attempt in range(max_retry_attempts)\<close>. Beside the result it returns
  the payloads that were posted, one for each attempt made.\<close>

fun attempts :: "config \<Rightarrow> upstream \<Rightarrow> json \<Rightarrow> nat list \<Rightarrow> api_result \<times> json list" where
  "attempts cfg post payload [] = (([], [], Some AllRetriesFailed), [])"
| "attempts cfg post payload (attempt # rest) =
     (case post payload attempt of
        Response status_code body \<Rightarrow>
          if status_code = 200 then
            (case body of
               Some result \<Rightarrow>
                 (case extract_image_results result of
                    (image_urls, data_urls, parse_error) \<Rightarrow>
                      (case parse_error of
                         Some e \<Rightarrow> (([], [], Some (ParseFailed e)), [payload])
                       | None \<Rightarrow>
                           if image_urls \<noteq> [] \<or> data_urls \<noteq> []
                           then ((image_urls, data_urls, None), [payload])
                           else (([], [], Some NoValidLinks), [payload])))
             | None \<Rightarrow> (([], [], Some JsonDecodeFailed), [payload]))
          else if status_code = 403 then (([], [], Some AccessDenied), [payload])
          else if int attempt = max_retry_attempts cfg - 1
            then (([], [], Some (RequestFailed status_code)), [payload])
          else (case attempts cfg post payload rest of (r, sent) \<Rightarrow> (r, payload # sent))
      | PostTimeout \<Rightarrow>
          if int attempt = max_retry_attempts cfg - 1
            then (([], [], Some RequestTimeout), [payload])
          else (case attempts cfg post payload rest of (r, sent) \<Rightarrow> (r, payload # sent))
      | PostError \<Rightarrow>
          if int attempt = max_retry_attempts cfg - 1
            then (([], [], Some RequestException), [payload])
          else (case attempts cfg post payload rest of (r, sent) \<Rightarrow> (r, payload # sent)))"

definition call_grok_api ::
  "config \<Rightarrow> upstream \<Rightarrow> str \<Rightarrow> str \<Rightarrow> api_result \<times> json list" where
  "call_grok_api cfg post prompt image_base64 =
     (if api_key cfg = [] then (([], [], Some NoApiKey), [])
      else attempts cfg post (request_payload cfg prompt image_base64)
             [0 ..< nat (max_retry_attempts cfg)])"

section \<open>The task orchestrator\<close>

text \<open>
  The collaborators of the orchestrator are parameters: the upstream API, saving an inline
  image to a file (\<open>_save_base64_image\<close>, the path or \<open>None\<close>), the relay of a local
  path (\<open>_prepare_image_path\<close>, which falls back to the path itself) and \<open>event.send\<close>,
  which may raise.
\<close>

datatype edit_error =
    EditDisabled
  | ResolveError str
  | NoImageToEdit
  | ApiError api_error

datatype component = FromURL str | FromFileSystem str

datatype notice =
    Denied denial
  | Busy
  | ExtractFailed str
  | ImageRequired
  | Started str
  | EditError edit_error
  | EditFailed
  | SendingImages
  | SendSucceeded
  | SendTimedOut
  | UnexpectedError py_exn

datatype outgoing = Plain notice | Chain "component list"

record environment =
  upstream_api :: upstream
  save_base64_image :: "str \<Rightarrow> str option"
  prepare_image_path :: "str \<Rightarrow> str"
  send :: "outgoing \<Rightarrow> py_exn option"

text \<open>The truth value of an optional error text.\<close>

definition truthy :: "str option \<Rightarrow> bool" where
  "truthy e = (case e of None \<Rightarrow> False | Some m \<Rightarrow> m \<noteq> [])"

definition saved_paths :: "(str \<Rightarrow> str option) \<Rightarrow> str list \<Rightarrow> str list" where
  "saved_paths save data_urls =
     concat (map (\<lambda>data_url. case save data_url of
                                None \<Rightarrow> []
                              | Some saved \<Rightarrow> if saved \<noteq> [] then [saved] else []) data_urls)"

text \<open>\<open>_generate_image_edit_core\<close>. \<open>resolved\<close> is what \<open>_extract_images_from_message\<close>
  returns for the event. Beside the result, the payloads posted to the upstream API.\<close>

definition generate_image_edit_core ::
  "config \<Rightarrow> environment \<Rightarrow> str list \<times> str option \<Rightarrow> str \<Rightarrow> str list option \<Rightarrow>
   str option \<Rightarrow> (str list \<times> str list \<times> edit_error option) \<times> json list" where
  "generate_image_edit_core cfg env resolved prompt prefetched_images prefetched_error =
     (if \<not> enabled cfg then (([], [], Some EditDisabled), [])
      else if truthy prefetched_error
        then (([], [], Some (ResolveError (case prefetched_error of Some m \<Rightarrow> m | None \<Rightarrow> []))), [])
      else
        (case (case prefetched_images of
                 None \<Rightarrow>
                   (case resolved of
                      (images, extract_error) \<Rightarrow>
                        if truthy extract_error
                        then Inl (case extract_error of Some m \<Rightarrow> m | None \<Rightarrow> [])
                        else Inr images)
               | Some images \<Rightarrow> Inr images) of
           Inl extract_error \<Rightarrow> (([], [], Some (ResolveError extract_error)), [])
         | Inr [] \<Rightarrow> (([], [], Some NoImageToEdit), [])
         | Inr (image_base64 # _) \<Rightarrow>
             (case call_grok_api cfg (upstream_api env) prompt image_base64 of
                ((image_urls, data_urls, error_msg), sent) \<Rightarrow>
                  (case error_msg of
                     Some e \<Rightarrow> (([], [], Some (ApiError e)), sent)
                   | None \<Rightarrow>
                       ((image_urls, saved_paths (save_base64_image env) data_urls, None), sent)))))"

text \<open>\<open>Image.fromURL\<close> of the framework's message components builds an image from a
  string that starts with \<open>http://\<close> or \<open>https://\<close> and raises for any other string;
  \<open>Image.fromFileSystem\<close> takes every path.\<close>

definition fromURL :: "str \<Rightarrow> py_exn + component" where
  "fromURL url =
     (if startswith url (py ''http://'') \<or> startswith url (py ''https://'') then Inr (FromURL url)
      else Inl NotAValidUrl)"

text \<open>The two loops that fill \<open>components\<close>, each with its \<open>break\<close>.\<close>

fun url_components ::
  "int \<Rightarrow> str list \<Rightarrow> component list \<times> int \<Rightarrow> py_exn + (component list \<times> int)" where
  "url_components m [] acc = Inr acc"
| "url_components m (image_url # rest) (components, count) =
     (if count \<ge> m then Inr (components, count)
      else
        (case fromURL image_url of
           Inl e \<Rightarrow> Inl e
         | Inr component \<Rightarrow> url_components m rest (components @ [component], count + 1)))"

fun path_components ::
  "int \<Rightarrow> (str \<Rightarrow> str) \<Rightarrow> str list \<Rightarrow> component list \<times> int \<Rightarrow> component list \<times> int" where
  "path_components m prepare [] acc = acc"
| "path_components m prepare (image_path # rest) (components, count) =
     (if count \<ge> m then (components, count)
      else path_components m prepare rest
             (components @ [FromFileSystem (prepare image_path)], count + 1))"

definition build_components ::
  "config \<Rightarrow> (str \<Rightarrow> str) \<Rightarrow> str list \<Rightarrow> str list \<Rightarrow> py_exn + component list" where
  "build_components cfg prepare image_urls image_paths =
     (case url_components (max_images_per_response cfg) image_urls ([], 0) of
        Inl e \<Rightarrow> Inl e
      | Inr acc \<Rightarrow>
          Inr (fst (path_components (max_images_per_response cfg) prepare image_paths acc)))"

text \<open>A run of sends: the messages handed to \<open>event.send\<close>, in order, and the exception
  that ended the run, if one was raised.\<close>

type_synonym run = "outgoing list \<times> py_exn option"

definition send_msg :: "environment \<Rightarrow> outgoing \<Rightarrow> run" where
  "send_msg env m = ([m], send env m)"

definition and_then :: "run \<Rightarrow> run \<Rightarrow> run" where
  "and_then a b = (case snd a of Some e \<Rightarrow> a | None \<Rightarrow> (fst a @ fst b, snd b))"

definition when_verbose :: "config \<Rightarrow> run \<Rightarrow> run" where
  "when_verbose cfg r = (if status_message_mode cfg = (py ''verbose'') then r else ([], None))"

text \<open>Sending the components: the inner \<open>try\<close> with its handler for the timeout.\<close>

definition deliver :: "config \<Rightarrow> environment \<Rightarrow> component list \<Rightarrow> run" where
  "deliver cfg env components =
     (if components = [] then ([], None)
      else
        (case and_then (send_msg env (Chain components))
                (when_verbose cfg (send_msg env (Plain SendSucceeded))) of
           (sent, Some TimeoutError) \<Rightarrow>
             and_then (sent, None) (when_verbose cfg (send_msg env (Plain SendTimedOut)))
         | r \<Rightarrow> r))"

text \<open>The body of the \<open>try\<close> of \<open>_async_edit_image\<close>, after the core has returned; an
  exception raised while the components are built ends it. The files written and removed
  are not part of the model.\<close>

definition edit_body ::
  "config \<Rightarrow> environment \<Rightarrow> str list \<times> str list \<times> edit_error option \<Rightarrow> run" where
  "edit_body cfg env core_result =
     (case core_result of
        (image_urls, image_paths, error_msg) \<Rightarrow>
          (case error_msg of
             Some e \<Rightarrow> send_msg env (Plain (EditError e))
           | None \<Rightarrow>
               if image_urls = [] \<and> image_paths = [] then send_msg env (Plain EditFailed)
               else and_then (when_verbose cfg (send_msg env (Plain SendingImages)))
                      (case build_components cfg (prepare_image_path env) image_urls
                              image_paths of
                         Inl e \<Rightarrow> ([], Some e)
                       | Inr components \<Rightarrow> deliver cfg env components)))"

text \<open>\<open>_async_edit_image\<close>: the body, the handler of an exception the body raised, and
  the \<open>finally\<close> block, which runs on every exit. The state is the plugin state at the
  moment the \<open>finally\<close> block runs.\<close>

definition async_edit_image ::
  "config \<Rightarrow> environment \<Rightarrow> plugin_state \<Rightarrow> str \<Rightarrow> str \<Rightarrow> str \<Rightarrow> str list option \<Rightarrow>
   str option \<Rightarrow> str list \<times> str option \<Rightarrow> run \<times> plugin_state" where
  "async_edit_image cfg env st user_id prompt task_id prefetched_images prefetched_error resolved =
     ((case edit_body cfg env
              (fst (generate_image_edit_core cfg env resolved prompt
                      prefetched_images prefetched_error)) of
         (sent, Some e) \<Rightarrow> and_then (sent, None) (send_msg env (Plain (UnexpectedError e)))
       | r \<Rightarrow> r),
      (if processing_tasks st user_id = Some task_id
       then st\<lparr>processing_tasks := (processing_tasks st)(user_id := None)\<rparr>
       else st))"

text \<open>A task created by \<open>asyncio.create_task\<close>: the arguments of \<open>_async_edit_image\<close>.\<close>

record task =
  task_user :: str
  task_prompt :: str
  task_id :: str
  task_images :: "str list"

text \<open>\<open>cmd_edit_image\<close> runs in two steps. The first goes from the start of the handler to
  \<open>await self._extract_images_from_message(event)\<close>: the access check and the test of the
  user's token. It gives the replies, the new state and whether the handler goes on to
  resolve the images.\<close>

definition cmd_edit_image_check ::
  "config \<Rightarrow> plugin_state \<Rightarrow> message_event \<Rightarrow> real \<Rightarrow> outgoing list \<times> plugin_state \<times> bool" where
  "cmd_edit_image_check cfg st event now =
     (case check_group_access cfg st event now of
        (Some access_error, st') \<Rightarrow> ([Plain (Denied access_error)], st', False)
      | (None, st') \<Rightarrow>
          if get_sender_id event \<in> dom (processing_tasks st') then ([Plain Busy], st', False)
          else ([], st', True))"

text \<open>The second step goes from the return of the resolver to the end of the handler;
  \<open>st\<close> is the plugin state at that moment, \<open>resolved\<close> what the resolver returned and
  \<open>new_id\<close> the id drawn for the task. It gives the replies, the new state and the task
  it creates.\<close>

definition cmd_edit_image_resume ::
  "config \<Rightarrow> plugin_state \<Rightarrow> message_event \<Rightarrow> str list \<times> str option \<Rightarrow> str \<Rightarrow>
   str \<Rightarrow> outgoing list \<times> plugin_state \<times> task option" where
  "cmd_edit_image_resume cfg st event resolved prompt new_id =
     (case resolved of
        (images, extract_error) \<Rightarrow>
          if truthy extract_error
            then ([Plain (ExtractFailed (case extract_error of Some m \<Rightarrow> m | None \<Rightarrow> []))],
                  st, None)
          else if images = [] then ([Plain ImageRequired], st, None)
          else
            ((if status_message_mode cfg \<noteq> (py ''silent'') then [Plain (Started new_id)] else []),
             st\<lparr>processing_tasks := (processing_tasks st)(get_sender_id event \<mapsto> new_id)\<rparr>,
             Some \<lparr>task_user = get_sender_id event, task_prompt = prompt,
                   task_id = new_id, task_images = images\<rparr>))"

text \<open>A handler that nothing else runs in between: the resolver returns at once.\<close>

definition cmd_edit_image ::
  "config \<Rightarrow> plugin_state \<Rightarrow> message_event \<Rightarrow> real \<Rightarrow> str list \<times> str option \<Rightarrow> str \<Rightarrow>
   str \<Rightarrow> outgoing list \<times> plugin_state \<times> task option" where
  "cmd_edit_image cfg st event now resolved prompt new_id =
     (case cmd_edit_image_check cfg st event now of
        (replies, st', go_on) \<Rightarrow>
          if go_on then
            (case cmd_edit_image_resume cfg st' event resolved prompt new_id of
               (replies', st'', created) \<Rightarrow> (replies @ replies', st'', created))
          else (replies, st', None))"

text \<open>
  The plugin with its coroutines. A command arrives and its handler runs up to the
  resolver; the resolver of a waiting handler returns and the handler runs to its end; a
  task that was created finishes. These steps happen in any order. A task touches the
  plugin state only in its \<open>finally\<close> block.
\<close>

record handler =
  handler_event :: message_event
  handler_prompt :: str

record world =
  plugin :: plugin_state
  resolving :: "handler list"
  running :: "task list"
  replies :: "outgoing list"

datatype occurrence =
    Command message_event str real
  | Resolved nat "str list \<times> str option" str
  | Finished nat

definition occur :: "config \<Rightarrow> environment \<Rightarrow> world \<Rightarrow> occurrence \<Rightarrow> world" where
  "occur cfg env w oc =
     (case oc of
        Command event prompt now \<Rightarrow>
          (case cmd_edit_image_check cfg (plugin w) event now of
             (yielded, st', go_on) \<Rightarrow>
               w\<lparr>plugin := st',
                 resolving := resolving w @
                   (if go_on then [\<lparr>handler_event = event, handler_prompt = prompt\<rparr>] else []),
                 replies := replies w @ yielded\<rparr>)
      | Resolved i resolved new_id \<Rightarrow>
          if i < length (resolving w) then
            (case cmd_edit_image_resume cfg (plugin w) (handler_event (resolving w ! i)) resolved
                    (handler_prompt (resolving w ! i)) new_id of
               (yielded, st', created) \<Rightarrow>
                 w\<lparr>plugin := st',
                   resolving := take i (resolving w) @ drop (Suc i) (resolving w),
                   running := running w @ (case created of None \<Rightarrow> [] | Some t \<Rightarrow> [t]),
                   replies := replies w @ yielded\<rparr>)
          else w
      | Finished i \<Rightarrow>
          if i < length (running w) then
            w\<lparr>plugin := snd (async_edit_image cfg env (plugin w) (task_user (running w ! i))
                             (task_prompt (running w ! i)) (task_id (running w ! i))
                             (Some (task_images (running w ! i))) None ([], None)),
              running := take i (running w) @ drop (Suc i) (running w)\<rparr>
          else w)"

definition initial_world :: world where
  "initial_world =
     \<lparr>plugin = \<lparr>rate_limit_bucket = Map.empty, processing_tasks = Map.empty\<rparr>,
      resolving = [], running = [], replies = []\<rparr>"

definition tasks_of :: "world \<Rightarrow> str \<Rightarrow> task list" where
  "tasks_of w user = filter (\<lambda>t. task_user t = user) (running w)"

definition handlers_of :: "world \<Rightarrow> str \<Rightarrow> handler list" where
  "handlers_of w user = filter (\<lambda>h. get_sender_id (handler_event h) = user) (resolving w)"

text \<open>What the token of a user is meant to guard: the user has at most one handler past
  the test of the token or one task, every task of the user holds the recorded token, and
  a token is recorded only while the user has a task.\<close>

definition guarded :: "world \<Rightarrow> bool" where
  "guarded w \<longleftrightarrow>
     (\<forall>u. length (handlers_of w u) + length (tasks_of w u) \<le> 1 \<and>
          (\<forall>t \<in> set (tasks_of w u). processing_tasks (plugin w) u = Some (task_id t)) \<and>
          (processing_tasks (plugin w) u \<noteq> None \<longrightarrow> tasks_of w u \<noteq> []))"

text \<open>A run in which no command of a user arrives while a handler of that user waits for
  the resolver.\<close>

fun unoverlapped :: "config \<Rightarrow> environment \<Rightarrow> world \<Rightarrow> occurrence list \<Rightarrow> bool" where
  "unoverlapped cfg env w [] = True"
| "unoverlapped cfg env w (oc # ocs) =
     ((case oc of
         Command event prompt now \<Rightarrow> handlers_of w (get_sender_id event) = []
       | _ \<Rightarrow> True) \<and>
      unoverlapped cfg env (occur cfg env w oc) ocs)"

section \<open>The URL validator accepts what the specification says\<close>

lemma startswith_iff: "startswith s p \<longleftrightarrow> (\<exists>r. s = p @ r)"
proof
  assume "startswith s p"
  then have "s = p @ drop (length p) s"
    by (metis append_take_drop_id startswith_def)
  then show "\<exists>r. s = p @ r" ..
next
  assume "\<exists>r. s = p @ r"
  then show "startswith s p" by (auto simp: startswith_def)
qed

lemma ext_at_iff:
  "ext_at s \<longleftrightarrow> (\<exists>e r. s = e @ r \<and> map fold_case e \<in> set image_exts \<and> ext_boundary r)"
proof
  assume "ext_at s"
  then obtain e where e: "e \<in> set image_exts" "match_ci e s" "ext_boundary (drop (length e) s)"
    by (auto simp: ext_at_def list_ex_iff)
  have "s = take (length e) s @ drop (length e) s" by simp
  moreover have "map fold_case (take (length e) s) \<in> set image_exts"
    using e by (simp add: match_ci_def)
  ultimately show "\<exists>e r. s = e @ r \<and> map fold_case e \<in> set image_exts \<and> ext_boundary r"
    using e(3) by blast
next
  assume "\<exists>e r. s = e @ r \<and> map fold_case e \<in> set image_exts \<and> ext_boundary r"
  then obtain e r where h: "s = e @ r" "map fold_case e \<in> set image_exts" "ext_boundary r"
    by blast
  let ?l = "map fold_case e"
  have "length ?l = length e" by simp
  then have "match_ci ?l s" "drop (length ?l) s = r"
    using h(1) by (simp_all add: match_ci_def)
  then show "ext_at s" using h by (auto simp: ext_at_def list_ex_iff)
qed

lemma search_ext_iff:
  "search_ext s \<longleftrightarrow> (\<exists>p r. s = p @ ch (CHR ''.'') # r \<and> ext_at r)"
proof (induction s)
  case Nil
  then show ?case by simp
next
  case (Cons c cs)
  show ?case
  proof
    assume "search_ext (c # cs)"
    then consider "c = ch (CHR ''.'')" "ext_at cs" | "search_ext cs" by auto
    then show "\<exists>p r. c # cs = p @ ch (CHR ''.'') # r \<and> ext_at r"
    proof cases
      case 1
      then have "c # cs = [] @ ch (CHR ''.'') # cs" by simp
      then show ?thesis using 1 by blast
    next
      case 2
      then obtain p r where "cs = p @ ch (CHR ''.'') # r" "ext_at r" using Cons.IH by blast
      then have "c # cs = (c # p) @ ch (CHR ''.'') # r" by simp
      then show ?thesis using \<open>ext_at r\<close> by blast
    qed
  next
    assume "\<exists>p r. c # cs = p @ ch (CHR ''.'') # r \<and> ext_at r"
    then obtain p r where h: "c # cs = p @ ch (CHR ''.'') # r" "ext_at r" by blast
    show "search_ext (c # cs)"
    proof (cases p)
      case Nil
      then show ?thesis using h by simp
    next
      case (Cons a p')
      then have "cs = p' @ ch (CHR ''.'') # r" using h by simp
      then have "search_ext cs" using Cons.IH h(2) by blast
      then show ?thesis by simp
    qed
  qed
qed

lemma ext_boundary_iff:
  "ch (CHR 0x0A) \<notin> set r \<Longrightarrow>
   ext_boundary r \<longleftrightarrow> (r = [] \<or> hd r \<in> {ch (CHR ''?''), ch (CHR ''&''), ch (CHR ''#'')})"
  by (cases r) (auto simp: ext_boundary_def)

lemma search_ext_spec:
  assumes "ch (CHR 0x0A) \<notin> set url"
  shows "search_ext url \<longleftrightarrow>
     (\<exists>p e r. url = p @ py ''.'' @ e @ r \<and>
        map fold_case e \<in> {py ''png'', py ''jpg'', py ''jpeg'', py ''webp'', py ''gif''} \<and>
        (r = [] \<or> hd r \<in> {ch (CHR ''?''), ch (CHR ''&''), ch (CHR ''#'')}))"
proof
  assume "search_ext url"
  then obtain p e r where h: "url = p @ ch (CHR ''.'') # e @ r" "map fold_case e \<in> set image_exts"
      "ext_boundary r"
    unfolding search_ext_iff ext_at_iff by blast
  from h(1) assms have "ch (CHR 0x0A) \<notin> set r" by auto
  with h(3) have b: "r = [] \<or> hd r \<in> {ch (CHR ''?''), ch (CHR ''&''), ch (CHR ''#'')}"
    by (simp add: ext_boundary_iff)
  have u: "url = p @ py ''.'' @ e @ r" using h(1) by simp
  have m: "map fold_case e \<in> {py ''png'', py ''jpg'', py ''jpeg'', py ''webp'', py ''gif''}"
    using h(2) by (simp add: image_exts_def)
  show "\<exists>p e r. url = p @ py ''.'' @ e @ r \<and>
        map fold_case e \<in> {py ''png'', py ''jpg'', py ''jpeg'', py ''webp'', py ''gif''} \<and>
        (r = [] \<or> hd r \<in> {ch (CHR ''?''), ch (CHR ''&''), ch (CHR ''#'')})"
    by (rule exI [of _ p], rule exI [of _ e], rule exI [of _ r]) (intro conjI u m b)
next
  assume "\<exists>p e r. url = p @ py ''.'' @ e @ r \<and>
        map fold_case e \<in> {py ''png'', py ''jpg'', py ''jpeg'', py ''webp'', py ''gif''} \<and>
        (r = [] \<or> hd r \<in> {ch (CHR ''?''), ch (CHR ''&''), ch (CHR ''#'')})"
  then obtain p e r where h: "url = p @ py ''.'' @ e @ r"
      "map fold_case e \<in> {py ''png'', py ''jpg'', py ''jpeg'', py ''webp'', py ''gif''}"
      "r = [] \<or> hd r \<in> {ch (CHR ''?''), ch (CHR ''&''), ch (CHR ''#'')}"
    by (elim exE conjE)
  from h(1) assms have "ch (CHR 0x0A) \<notin> set r" by auto
  with h(3) have "ext_boundary r" by (simp add: ext_boundary_iff)
  moreover have "map fold_case e \<in> set image_exts" using h(2) by (simp add: image_exts_def)
  ultimately have "ext_at (e @ r)" unfolding ext_at_iff by blast
  moreover have "url = p @ ch (CHR ''.'') # (e @ r)" using h(1) by simp
  ultimately show "search_ext url" unfolding search_ext_iff by blast
qed

lemma invalid_chars_iff:
  "list_ex (\<lambda>c. c \<in> set url) invalid_chars \<longleftrightarrow>
   \<not> (\<forall>c \<in> set url. c \<notin> {ch (CHR ''<''), ch (CHR ''>''), ch (CHR 0x22), ch (CHR 0x27), ch (CHR 0x0A), ch (CHR 0x0D), ch (CHR 0x09)})"
  by (auto simp: invalid_chars_def)

lemma fold_case_dot: "fold_case c = ch (CHR ''.'') \<longleftrightarrow> c = ch (CHR ''.'')"
  by (auto simp: fold_case_def)

lemma spec_extension_accepted:
  assumes "spec_ends_in_extension url"
  shows "\<exists>p e r. url = p @ py ''.'' @ e @ r \<and>
            map fold_case e \<in> {py ''png'', py ''jpg'', py ''jpeg'', py ''webp'', py ''gif''} \<and>
            (r = [] \<or> hd r \<in> {ch (CHR ''?''), ch (CHR ''&''), ch (CHR ''#'')})"
proof -
  define path where "path = takeWhile (\<lambda>c. c \<noteq> ch (CHR ''?'') \<and> c \<noteq> ch (CHR ''#'')) url"
  define r where "r = dropWhile (\<lambda>c. c \<noteq> ch (CHR ''?'') \<and> c \<noteq> ch (CHR ''#'')) url"
  have u: "url = path @ r" unfolding path_def r_def by simp
  have b: "r = [] \<or> hd r \<in> {ch (CHR ''?''), ch (CHR ''&''), ch (CHR ''#'')}"
  proof (cases r)
    case Nil
    then show ?thesis by simp
  next
    case (Cons c cs)
    then have "\<not> (hd r \<noteq> ch (CHR ''?'') \<and> hd r \<noteq> ch (CHR ''#''))"
      unfolding r_def using hd_dropWhile [of "\<lambda>c. c \<noteq> ch (CHR ''?'') \<and> c \<noteq> ch (CHR ''#'')" url]
      by fastforce
    then show ?thesis by auto
  qed
  from assms obtain e where e: "e \<in> set image_exts" "Suc (length e) \<le> length path"
      "map fold_case (drop (length path - Suc (length e)) path) = ch (CHR ''.'') # e"
    unfolding spec_ends_in_extension_def path_def [symmetric] Let_def list_ex_iff
    by (elim bexE conjE) (rule that)
  define p where "p = take (length path - Suc (length e)) path"
  define t where "t = drop (length path - Suc (length e)) path"
  have pt: "path = p @ t" unfolding p_def t_def by simp
  from e(3) obtain d x where t: "t = d # x" "fold_case d = ch (CHR ''.'')" "map fold_case x = e"
    unfolding t_def [symmetric] by (cases t) auto
  from t(2) have d: "d = ch (CHR ''.'')" by (simp only: fold_case_dot)
  have 1: "url = p @ py ''.'' @ x @ r" unfolding u pt t(1) d by simp
  have 2: "map fold_case x \<in> {py ''png'', py ''jpg'', py ''jpeg'', py ''webp'', py ''gif''}"
    using e(1) unfolding t(3) image_exts_def by simp
  show ?thesis
    by (rule exI [of _ p], rule exI [of _ x], rule exI [of _ r]) (intro conjI 1 2 b)
qed

text \<open>
  Claim C5. \<open>_is_valid_image_url\<close> accepts a URL exactly when it has at least 10
  characters, starts with \<open>http://\<close> or \<open>https://\<close>, contains none of the characters
  \<open><\<close>, \<open>>\<close>, double quote, single quote, newline, carriage return and tab, and, when an
  extension is required, contains a dot followed by one of the image extensions that is
  followed by the end of the URL or by one of \<open>?\<close>, \<open>&\<close>, \<open>#\<close>; what comes after that
  character is not examined. The extension is compared as \<open>re.IGNORECASE\<close> does: a letter
  matches itself and its capital, and \<open>i\<close> also matches U+0130 and U+0131. Every URL that
  ends in an extension, optionally followed by a query or a fragment, passes this test.
  The validator rejects every URL with a raw \<open><\<close>, it rejects \<open>ftp://x/a.png\<close>, and it
  rejects \<open>http://x/a\<close> when an extension is required.
\<close>

theorem is_valid_image_url_spec:
  "(is_valid_image_url url require_extension \<longleftrightarrow>
      10 \<le> length url \<and>
      (\<exists>rest. url = py ''http://'' @ rest \<or> url = py ''https://'' @ rest) \<and>
      (\<forall>c \<in> set url. c \<notin> {ch (CHR ''<''), ch (CHR ''>''), ch (CHR 0x22), ch (CHR 0x27),
                             ch (CHR 0x0A), ch (CHR 0x0D), ch (CHR 0x09)}) \<and>
      (require_extension \<longrightarrow>
         (\<exists>p e r. url = p @ py ''.'' @ e @ r \<and>
            map fold_case e \<in> {py ''png'', py ''jpg'', py ''jpeg'', py ''webp'', py ''gif''} \<and>
            (r = [] \<or> hd r \<in> {ch (CHR ''?''), ch (CHR ''&''), ch (CHR ''#'')}))))
   \<and> (fold_case c = ch (CHR ''i'') \<longleftrightarrow> c \<in> {ch (CHR ''i''), ch (CHR ''I''), 0x130, 0x131})
   \<and> (l \<in> set (py ''pngjewbf'') \<longrightarrow> (fold_case c = l \<longleftrightarrow> c = l \<or> c + 32 = l))
   \<and> (spec_ends_in_extension url \<longrightarrow>
         (\<exists>p e r. url = p @ py ''.'' @ e @ r \<and>
            map fold_case e \<in> {py ''png'', py ''jpg'', py ''jpeg'', py ''webp'', py ''gif''} \<and>
            (r = [] \<or> hd r \<in> {ch (CHR ''?''), ch (CHR ''&''), ch (CHR ''#'')})))
   \<and> (ch (CHR ''<'') \<in> set url \<longrightarrow> \<not> is_valid_image_url url require_extension)
   \<and> \<not> is_valid_image_url (py ''ftp://x/a.png'') require_extension
   \<and> \<not> is_valid_image_url (py ''http://x/a'') True"
proof (intro conjI)
  let ?bad = "{ch (CHR ''<''), ch (CHR ''>''), ch (CHR 0x22), ch (CHR 0x27),
               ch (CHR 0x0A), ch (CHR 0x0D), ch (CHR 0x09)}"
  have scheme: "(startswith url (py ''http://'') \<or> startswith url (py ''https://'')) \<longleftrightarrow>
      (\<exists>rest. url = py ''http://'' @ rest \<or> url = py ''https://'' @ rest)"
    unfolding startswith_iff by blast
  show "is_valid_image_url url require_extension \<longleftrightarrow>
      10 \<le> length url \<and>
      (\<exists>rest. url = py ''http://'' @ rest \<or> url = py ''https://'' @ rest) \<and>
      (\<forall>c \<in> set url. c \<notin> ?bad) \<and>
      (require_extension \<longrightarrow>
         (\<exists>p e r. url = p @ py ''.'' @ e @ r \<and>
            map fold_case e \<in> {py ''png'', py ''jpg'', py ''jpeg'', py ''webp'', py ''gif''} \<and>
            (r = [] \<or> hd r \<in> {ch (CHR ''?''), ch (CHR ''&''), ch (CHR ''#'')})))"
  proof (cases "\<forall>c \<in> set url. c \<notin> ?bad")
    case True
    then have nl: "ch (CHR 0x0A) \<notin> set url" by blast
    have "is_valid_image_url url require_extension \<longleftrightarrow>
        10 \<le> length url \<and> (startswith url (py ''http://'') \<or> startswith url (py ''https://'')) \<and>
        (require_extension \<longrightarrow> search_ext url)"
      using True unfolding is_valid_image_url_def invalid_chars_iff by auto
    then have "is_valid_image_url url require_extension \<longleftrightarrow>
        10 \<le> length url \<and>
        (\<exists>rest. url = py ''http://'' @ rest \<or> url = py ''https://'' @ rest) \<and>
        (require_extension \<longrightarrow>
           (\<exists>p e r. url = p @ py ''.'' @ e @ r \<and>
              map fold_case e \<in> {py ''png'', py ''jpg'', py ''jpeg'', py ''webp'', py ''gif''} \<and>
              (r = [] \<or> hd r \<in> {ch (CHR ''?''), ch (CHR ''&''), ch (CHR ''#'')})))"
      unfolding scheme search_ext_spec [OF nl] .
    with True show ?thesis by argo
  next
    case False
    then have "\<not> is_valid_image_url url require_extension"
      unfolding is_valid_image_url_def invalid_chars_iff by simp
    with False show ?thesis by simp
  qed
  show "fold_case c = ch (CHR ''i'') \<longleftrightarrow> c \<in> {ch (CHR ''i''), ch (CHR ''I''), 0x130, 0x131}"
    by (auto simp: fold_case_def)
  show "l \<in> set (py ''pngjewbf'') \<longrightarrow> (fold_case c = l \<longleftrightarrow> c = l \<or> c + 32 = l)"
    by (auto simp: fold_case_def)
  show "spec_ends_in_extension url \<longrightarrow>
         (\<exists>p e r. url = p @ py ''.'' @ e @ r \<and>
            map fold_case e \<in> {py ''png'', py ''jpg'', py ''jpeg'', py ''webp'', py ''gif''} \<and>
            (r = [] \<or> hd r \<in> {ch (CHR ''?''), ch (CHR ''&''), ch (CHR ''#'')}))"
    by (rule impI) (rule spec_extension_accepted)
  show "ch (CHR ''<'') \<in> set url \<longrightarrow> \<not> is_valid_image_url url require_extension"
    unfolding is_valid_image_url_def invalid_chars_iff by auto
  show "\<not> is_valid_image_url (py ''ftp://x/a.png'') require_extension"
    by (simp add: is_valid_image_url_def startswith_def)
  show "\<not> is_valid_image_url (py ''http://x/a'') True"
    by (simp add: is_valid_image_url_def startswith_def ext_at_def image_exts_def match_ci_def
        fold_case_def)
qed

theorem is_valid_image_url_spec_witness:
  "is_valid_image_url (py ''https://x/a.PNG?x=1'') True \<and>
   is_valid_image_url (py ''http://x/a.g'' @ [0x131] @ py ''f'') True \<and>
   \<not> is_valid_image_url (py ''https://x/<a.png'') False \<and>
   fold_case (ch (CHR ''G'')) = ch (CHR ''g'')"
proof (intro conjI)
  have ext: "\<exists>p e r. py ''https://x/a.PNG?x=1'' = p @ py ''.'' @ e @ r \<and>
      map fold_case e \<in> {py ''png'', py ''jpg'', py ''jpeg'', py ''webp'', py ''gif''} \<and>
      (r = [] \<or> hd r \<in> {ch (CHR ''?''), ch (CHR ''&''), ch (CHR ''#'')})"
    by (rule exI [of _ "py ''https://x/a''"], rule exI [of _ "py ''PNG''"],
        rule exI [of _ "py ''?x=1''"]) (simp add: fold_case_def)
  have scheme: "\<exists>rest. py ''https://x/a.PNG?x=1'' = py ''http://'' @ rest \<or>
      py ''https://x/a.PNG?x=1'' = py ''https://'' @ rest"
    by (rule exI [of _ "py ''x/a.PNG?x=1''"]) simp
  have chars: "\<forall>c \<in> set (py ''https://x/a.PNG?x=1'').
      c \<notin> {ch (CHR ''<''), ch (CHR ''>''), ch (CHR 0x22), ch (CHR 0x27),
            ch (CHR 0x0A), ch (CHR 0x0D), ch (CHR 0x09)}"
    by simp
  show "is_valid_image_url (py ''https://x/a.PNG?x=1'') True"
    by (rule iffD2 [OF is_valid_image_url_spec [of "py ''https://x/a.PNG?x=1''" True,
            THEN conjunct1]])
      (intro conjI impI ext scheme chars, simp)
  let ?u = "py ''http://x/a.g'' @ [0x131] @ py ''f''"
  have ext': "\<exists>p e r. ?u = p @ py ''.'' @ e @ r \<and>
      map fold_case e \<in> {py ''png'', py ''jpg'', py ''jpeg'', py ''webp'', py ''gif''} \<and>
      (r = [] \<or> hd r \<in> {ch (CHR ''?''), ch (CHR ''&''), ch (CHR ''#'')})"
    by (rule exI [of _ "py ''http://x/a''"], rule exI [of _ "[ch (CHR ''g''), 0x131, ch (CHR ''f'')]"],
        rule exI [of _ "[]"]) (simp add: fold_case_def)
  have scheme': "\<exists>rest. ?u = py ''http://'' @ rest \<or> ?u = py ''https://'' @ rest"
    by (rule exI [of _ "py ''x/a.g'' @ [0x131] @ py ''f''"]) simp
  have chars': "\<forall>c \<in> set ?u.
      c \<notin> {ch (CHR ''<''), ch (CHR ''>''), ch (CHR 0x22), ch (CHR 0x27),
            ch (CHR 0x0A), ch (CHR 0x0D), ch (CHR 0x09)}"
    by simp
  show "is_valid_image_url ?u True"
    by (rule iffD2 [OF is_valid_image_url_spec [of ?u True, THEN conjunct1]])
      (intro conjI impI ext' scheme' chars', simp)
  show "\<not> is_valid_image_url (py ''https://x/<a.png'') False"
    by (rule is_valid_image_url_spec [of "py ''https://x/<a.png''" False,
          THEN conjunct2, THEN conjunct2, THEN conjunct2, THEN conjunct2, THEN conjunct1, THEN mp])
      simp
  have g: "ch (CHR ''g'') \<in> set (py ''pngjewbf'')" by simp
  from is_valid_image_url_spec [of _ _ "ch (CHR ''G'')" "ch (CHR ''g'')",
      THEN conjunct2, THEN conjunct2, THEN conjunct1, THEN mp, OF g]
  show "fold_case (ch (CHR ''G'')) = ch (CHR ''g'')" by simp
qed

text \<open>
  The extension need not end the URL: \<open>http://x/a.png&b/c.exe\<close> is accepted with the
  extension required, though it does not end in an image extension followed by a query
  or a fragment.
\<close>

theorem extension_followed_by_more:
  "is_valid_image_url (py ''http://x/a.png&b/c.exe'') True \<and>
   \<not> spec_ends_in_extension (py ''http://x/a.png&b/c.exe'')"
  by (simp add: is_valid_image_url_def startswith_def ext_at_def image_exts_def match_ci_def
      fold_case_def ext_boundary_def invalid_chars_def spec_ends_in_extension_def)

section \<open>Removing duplicates keeps the first occurrences\<close>

lemma dedupe_loop_acc:
  "dedupe_loop items seen result = result @ dedupe_loop items seen []"
proof (induction items arbitrary: seen result)
  case Nil
  then show ?case by simp
next
  case (Cons item items)
  show ?case
  proof (cases "item = [] \<or> item \<in> seen")
    case True
    then show ?thesis using Cons.IH [of seen result] by auto
  next
    case False
    then show ?thesis
      using Cons.IH [of "insert item seen" "result @ [item]"]
        Cons.IH [of "insert item seen" "[item]"] by simp
  qed
qed

lemma dedupe_loop_snoc:
  "dedupe_loop (items @ [x]) seen [] =
     (if x = [] \<or> x \<in> seen \<or> x \<in> set items then dedupe_loop items seen []
      else dedupe_loop items seen [] @ [x])"
proof (induction items arbitrary: seen)
  case Nil
  then show ?case by simp
next
  case (Cons item items)
  show ?case
  proof (cases "item = [] \<or> item \<in> seen")
    case True
    then show ?thesis using Cons.IH [of seen] by auto
  next
    case False
    have "dedupe_loop ((item # items) @ [x]) seen [] =
        [item] @ dedupe_loop (items @ [x]) (insert item seen) []"
      using False dedupe_loop_acc [of "items @ [x]" "insert item seen" "[item]"] by simp
    moreover have "dedupe_loop (item # items) seen [] =
        [item] @ dedupe_loop items (insert item seen) []"
      using False dedupe_loop_acc [of items "insert item seen" "[item]"] by simp
    ultimately show ?thesis using Cons.IH [of "insert item seen"] False by auto
  qed
qed

lemma dedupe_preserve_Nil: "dedupe_preserve [] = []"
  by (simp add: dedupe_preserve_def)

lemma dedupe_preserve_snoc:
  "dedupe_preserve (items @ [x]) =
     (if x = [] \<or> x \<in> set items then dedupe_preserve items else dedupe_preserve items @ [x])"
  unfolding dedupe_preserve_def using dedupe_loop_snoc [of items x "{}"] by simp

lemma set_dedupe_preserve: "set (dedupe_preserve items) = set items - {[]}"
  by (induction items rule: rev_induct) (auto simp: dedupe_preserve_Nil dedupe_preserve_snoc)

lemma distinct_dedupe_preserve: "distinct (dedupe_preserve items)"
  by (induction items rule: rev_induct)
    (auto simp: dedupe_preserve_Nil dedupe_preserve_snoc set_dedupe_preserve)

lemma dedupe_preserve_empty_iff: "dedupe_preserve items = [] \<longleftrightarrow> set items \<subseteq> {[]}"
proof -
  have "dedupe_preserve items = [] \<longleftrightarrow> set (dedupe_preserve items) = {}" by simp
  then show ?thesis unfolding set_dedupe_preserve by auto
qed

lemma takeWhile_index_append_in:
  "x \<in> set xs \<Longrightarrow> length (takeWhile (\<lambda>z. z \<noteq> x) (xs @ ys)) = length (takeWhile (\<lambda>z. z \<noteq> x) xs)"
  by (induction xs) auto

lemma takeWhile_index_append_notin:
  "x \<notin> set xs \<Longrightarrow> length (takeWhile (\<lambda>z. z \<noteq> x) (xs @ [x])) = length xs"
  by (induction xs) auto

lemma takeWhile_index_less:
  "x \<in> set xs \<Longrightarrow> length (takeWhile (\<lambda>z. z \<noteq> x) xs) < length xs"
  by (induction xs) auto

lemma dedupe_preserve_order:
  "x \<in> set (dedupe_preserve items) \<Longrightarrow> y \<in> set (dedupe_preserve items) \<Longrightarrow>
   (length (takeWhile (\<lambda>z. z \<noteq> x) (dedupe_preserve items))
      < length (takeWhile (\<lambda>z. z \<noteq> y) (dedupe_preserve items))) =
   (length (takeWhile (\<lambda>z. z \<noteq> x) items) < length (takeWhile (\<lambda>z. z \<noteq> y) items))"
proof (induction items rule: rev_induct)
  case Nil
  then show ?case by (simp add: dedupe_preserve_Nil)
next
  case (snoc a items)
  let ?d = "dedupe_preserve items"
  show ?case
  proof (cases "a = [] \<or> a \<in> set items")
    case True
    then have eq: "dedupe_preserve (items @ [a]) = ?d" by (simp add: dedupe_preserve_snoc)
    with snoc.prems have in_d: "x \<in> set ?d" "y \<in> set ?d" by simp_all
    then have in_i: "x \<in> set items" "y \<in> set items" by (simp_all add: set_dedupe_preserve)
    show ?thesis
      unfolding eq using snoc.IH [OF in_d] in_i by (simp add: takeWhile_index_append_in)
  next
    case False
    then have eq: "dedupe_preserve (items @ [a]) = ?d @ [a]" by (simp add: dedupe_preserve_snoc)
    from False have a_d: "a \<notin> set ?d" by (simp add: set_dedupe_preserve)
    from snoc.prems have xy: "x \<in> set ?d \<or> x = a" "y \<in> set ?d \<or> y = a"
      unfolding eq by auto
    consider (dd) "x \<in> set ?d" "y \<in> set ?d" | (da) "x \<in> set ?d" "y = a"
      | (ad) "x = a" "y \<in> set ?d" | (aa) "x = a" "y = a"
      using xy by blast
    then show ?thesis
    proof cases
      case dd
      then have in_i: "x \<in> set items" "y \<in> set items" by (simp_all add: set_dedupe_preserve)
      show ?thesis unfolding eq using snoc.IH [OF dd] dd in_i
        by (simp add: takeWhile_index_append_in)
    next
      case da
      then have in_i: "x \<in> set items" by (simp add: set_dedupe_preserve)
      have "length (takeWhile (\<lambda>z. z \<noteq> x) (?d @ [a])) < length ?d"
        using da(1) by (simp add: takeWhile_index_append_in takeWhile_index_less)
      moreover have "length (takeWhile (\<lambda>z. z \<noteq> a) (?d @ [a])) = length ?d"
        using a_d by (rule takeWhile_index_append_notin)
      moreover have "length (takeWhile (\<lambda>z. z \<noteq> x) (items @ [a])) < length items"
        using in_i by (simp add: takeWhile_index_append_in takeWhile_index_less)
      moreover have "length (takeWhile (\<lambda>z. z \<noteq> a) (items @ [a])) = length items"
        using False by (simp add: takeWhile_index_append_notin)
      ultimately show ?thesis unfolding eq da(2) by simp
    next
      case ad
      then have in_i: "y \<in> set items" by (simp add: set_dedupe_preserve)
      have "length (takeWhile (\<lambda>z. z \<noteq> y) (?d @ [a])) < length ?d"
        using ad(2) by (simp add: takeWhile_index_append_in takeWhile_index_less)
      moreover have "length (takeWhile (\<lambda>z. z \<noteq> a) (?d @ [a])) = length ?d"
        using a_d by (rule takeWhile_index_append_notin)
      moreover have "length (takeWhile (\<lambda>z. z \<noteq> y) (items @ [a])) < length items"
        using in_i by (simp add: takeWhile_index_append_in takeWhile_index_less)
      moreover have "length (takeWhile (\<lambda>z. z \<noteq> a) (items @ [a])) = length items"
        using False by (simp add: takeWhile_index_append_notin)
      ultimately show ?thesis unfolding eq ad(1) by simp
    next
      case aa
      then show ?thesis by simp
    qed
  qed
qed

section \<open>What the patterns and the loops of the parser collect\<close>

lemma star_matches_length: "s' \<in> set (star_matches p s) \<Longrightarrow> length s' \<le> length s"
  by (induction s) (auto split: if_splits)

lemma rx_match_length: "s' \<in> set (rx_match r s) \<Longrightarrow> length s' \<le> length s"
proof (induction r arbitrary: s s')
  case (Chr p)
  then show ?case by (cases s) (auto split: if_splits)
next
  case Eps
  then show ?case by simp
next
  case (Seq a b)
  from Seq.prems obtain m where "m \<in> set (rx_match a s)" "s' \<in> set (rx_match b m)" by auto
  then have "length m \<le> length s" "length s' \<le> length m"
    using Seq.IH by blast+
  then show ?case by simp
next
  case (Alt a b)
  then show ?case by auto
next
  case (Star p)
  then show ?case by (simp add: star_matches_length)
qed

lemma rx_match_Chr_shorter:
  "s' \<in> set (rx_match (Seq (Chr p) r) s) \<Longrightarrow> length s' < length s"
proof -
  assume a: "s' \<in> set (rx_match (Seq (Chr p) r) s)"
  then obtain m where m: "m \<in> set (rx_match (Chr p) s)" "s' \<in> set (rx_match r m)" by auto
  from m(1) have "length m < length s" by (cases s) (auto split: if_splits)
  moreover from m(2) have "length s' \<le> length m" by (rule rx_match_length)
  ultimately show ?thesis by simp
qed

lemma match_at_group_only:
  "match_at Eps grp Eps s = Some (cap, rest) \<Longrightarrow>
     rest \<in> set (rx_match grp s) \<and> cap = take (length s - length rest) s"
proof -
  assume a: "match_at Eps grp Eps s = Some (cap, rest)"
  have l: "concat (map (\<lambda>s1. concat (map (\<lambda>s2.
              map (\<lambda>s3. (take (length s1 - length s2) s1, s3)) (rx_match Eps s2))
            (rx_match grp s1))) (rx_match Eps s)) =
        map (\<lambda>s2. (take (length s - length s2) s, s2)) (rx_match grp s)"
    by (induction "rx_match grp s") (simp_all add: concat_map_singleton)
  from a have "(cap, rest) \<in> set (map (\<lambda>s2. (take (length s - length s2) s, s2)) (rx_match grp s))"
    unfolding match_at_def l by (auto split: list.splits)
  then show ?thesis by auto
qed

lemma findall_nonempty:
  "(\<forall>s cap rest. match_at pre grp post s = Some (cap, rest) \<longrightarrow> cap \<noteq> []) \<Longrightarrow>
   x \<in> set (findall pre grp post s) \<Longrightarrow> x \<noteq> []"
proof (induction pre grp post s rule: findall.induct)
  case (1 pre grp post s)
  note caps = "1.prems"(1) and mem = "1.prems"(2)
  show ?case
  proof (cases "match_at pre grp post s")
    case None
    with mem have "s \<noteq> []" "x \<in> set (findall pre grp post (tl s))"
      by (auto simp: findall.simps [of pre grp post s] split: if_splits)
    then show ?thesis using "1.IH" None caps by blast
  next
    case (Some r)
    obtain cap rest where r: "r = (cap, rest)" by (cases r)
    have c: "cap \<noteq> []" using caps Some r by blast
    from mem Some r have
      "x = cap \<or> (length rest < length s \<and> x \<in> set (findall pre grp post rest)) \<or>
       (\<not> length rest < length s \<and> s \<noteq> [] \<and> x \<in> set (findall pre grp post (tl s)))"
      by (auto simp: findall.simps [of pre grp post s] split: if_splits)
    then show ?thesis using c "1.IH" Some r caps by blast
  qed
qed

lemma data_uris_nonempty: "x \<in> set (data_uris content) \<Longrightarrow> x \<noteq> []"
  unfolding data_uris_def
proof (erule findall_nonempty [rotated], intro allI impI)
  fix s cap rest
  assume "match_at Eps (Seq (lit (py ''data:image/''))
            (Seq (alts [py ''png'', py ''jpeg'', py ''jpg'', py ''webp'', py ''gif''])
               (Seq (lit (py '';base64,'')) (plus b64_char)))) Eps s = Some (cap, rest)"
  then have m: "rest \<in> set (rx_match (Seq (lit (py ''data:image/''))
            (Seq (alts [py ''png'', py ''jpeg'', py ''jpg'', py ''webp'', py ''gif''])
               (Seq (lit (py '';base64,'')) (plus b64_char)))) s)"
      and c: "cap = take (length s - length rest) s"
    by (auto dest: match_at_group_only)
  from m obtain a where a: "a \<in> set (rx_match (lit (py ''data:image/'')) s)"
      "rest \<in> set (rx_match (Seq (alts [py ''png'', py ''jpeg'', py ''jpg'', py ''webp'', py ''gif''])
               (Seq (lit (py '';base64,'')) (plus b64_char))) a)"
    by auto
  have "lit (py ''data:image/'') = Seq (Chr (\<lambda>x. fold_case x = ch (CHR ''d''))) (lit (py ''ata:image/''))"
    by (simp add: lit_def)
  with a(1) have "length a < length s" by (simp only: rx_match_Chr_shorter)
  moreover from a(2) have "length rest \<le> length a" by (rule rx_match_length)
  ultimately have "length rest < length s" by simp
  then show "cap \<noteq> []" using c by auto
qed

lemma valid_url_nonempty: "is_valid_image_url u b \<Longrightarrow> u \<noteq> []"
  by (auto simp: is_valid_image_url_def split: if_splits)

lemma data_items_sets:
  "set (fst (data_items items (us, ds))) =
     set us \<union> {u. \<exists>d. JObj d \<in> set items \<and> dict_get d (py ''url'') = JStr u \<and>
                    is_valid_image_url u False} \<and>
   set (snd (data_items items (us, ds))) =
     set ds \<union> {py ''data:image/png;base64,'' @ b | b d.
                  JObj d \<in> set items \<and> dict_get d (py ''b64_json'') = JStr b \<and> b \<noteq> []}"
proof (induction items arbitrary: us ds)
  case Nil
  then show ?case by simp
next
  case (Cons item items)
  show ?case
  proof (cases item)
    case (JObj d)
    let ?us = "case dict_get d (py ''url'') of
                JStr url \<Rightarrow> if is_valid_image_url url False then us @ [url] else us
              | _ \<Rightarrow> us"
    let ?ds = "case dict_get d (py ''b64_json'') of
                JStr b64_json \<Rightarrow>
                  if b64_json \<noteq> [] then ds @ [py ''data:image/png;base64,'' @ b64_json]
                  else ds
              | _ \<Rightarrow> ds"
    have step: "data_items (item # items) (us, ds) = data_items items (?us, ?ds)"
      using JObj by simp
    have u: "set ?us = set us \<union> {u. dict_get d (py ''url'') = JStr u \<and> is_valid_image_url u False}"
      by (cases "dict_get d (py ''url'')") auto
    have b: "set ?ds = set ds \<union> {py ''data:image/png;base64,'' @ b | b.
                  dict_get d (py ''b64_json'') = JStr b \<and> b \<noteq> []}"
      by (cases "dict_get d (py ''b64_json'')") auto
    show ?thesis
      unfolding step using Cons.IH [of ?us ?ds] unfolding u b JObj by auto
  next
    case JNull
    then show ?thesis using Cons.IH [of us ds] by auto
  next
    case (JBool x)
    then show ?thesis using Cons.IH [of us ds] by auto
  next
    case (JNum x)
    then show ?thesis using Cons.IH [of us ds] by auto
  next
    case (JStr x)
    then show ?thesis using Cons.IH [of us ds] by auto
  next
    case (JArr x)
    then show ?thesis using Cons.IH [of us ds] by auto
  qed
qed

lemma content_parts_prefix:
  "\<exists>r. fst (content_parts parts (us, ts)) = us @ r \<and> [] \<notin> set r"
proof (induction parts arbitrary: us ts)
  case Nil
  then show ?case by simp
next
  case (Cons part parts)
  show ?case
  proof (cases part)
    case (JObj d)
    let ?us = "if dict_get d (py ''type'') = JStr (py ''image_url'') then
                (case part_image_url d of
                   JStr image_url \<Rightarrow>
                     if is_valid_image_url image_url False then us @ [image_url]
                     else us
                 | _ \<Rightarrow> us)
              else us"
    let ?ts = "if dict_get d (py ''type'') = JStr (py ''text'') then
                (case dict_get d (py ''text'') of JStr t \<Rightarrow> ts @ [t] | _ \<Rightarrow> ts)
              else ts"
    have step: "content_parts (part # parts) (us, ts) = content_parts parts (?us, ?ts)"
      using JObj by simp
    have "\<exists>r. ?us = us @ r \<and> [] \<notin> set r"
      by (cases "part_image_url d") (auto dest: valid_url_nonempty)
    then obtain r where r: "?us = us @ r" "[] \<notin> set r" by blast
    from Cons.IH [of ?us ?ts] obtain r' where
      r': "fst (content_parts parts (?us, ?ts)) = ?us @ r'" "[] \<notin> set r'" by blast
    have "fst (content_parts (part # parts) (us, ts)) = us @ (r @ r')"
      unfolding step r'(1) using r(1) by simp
    moreover have "[] \<notin> set (r @ r')" using r(2) r'(2) by simp
    ultimately show ?thesis by blast
  qed (use Cons.IH [of us ts] in auto)
qed

lemma attachment_items_prefix:
  "\<exists>r. attachment_items items us = us @ r \<and> [] \<notin> set r"
proof (induction items arbitrary: us)
  case Nil
  then show ?case by simp
next
  case (Cons item items)
  show ?case
  proof (cases item)
    case (JObj d)
    show ?thesis
    proof (cases "\<exists>url. dict_get d (py ''url'') = JStr url \<and> is_valid_image_url url False")
      case True
      then obtain url where url: "dict_get d (py ''url'') = JStr url" "is_valid_image_url url False"
        by blast
      from Cons.IH [of "us @ [url]"] obtain r where
        r: "attachment_items items (us @ [url]) = (us @ [url]) @ r" "[] \<notin> set r" by blast
      have "attachment_items (item # items) us = us @ (url # r)"
        using JObj url r(1) by simp
      moreover have "[] \<notin> set (url # r)" using r(2) url(2) by (auto dest: valid_url_nonempty)
      ultimately show ?thesis by blast
    next
      case False
      then have "attachment_items (item # items) us = attachment_items items us"
        using JObj by (cases "dict_get d (py ''url'')") auto
      then show ?thesis using Cons.IH [of us] by simp
    qed
  qed (use Cons.IH [of us] in auto)
qed

lemma attachment_fields_prefix:
  "\<exists>r. attachment_fields message fs us = us @ r \<and> [] \<notin> set r"
proof (induction fs arbitrary: us)
  case Nil
  then show ?case by simp
next
  case (Cons field fs)
  let ?us = "case dict_get message field of
          JArr items \<Rightarrow> attachment_items items us
        | _ \<Rightarrow> us"
  have "\<exists>r. ?us = us @ r \<and> [] \<notin> set r"
    using attachment_items_prefix by (cases "dict_get message field") auto
  then obtain r where r: "?us = us @ r" "[] \<notin> set r" by blast
  from Cons.IH [of ?us] obtain r' where
    r': "attachment_fields message fs ?us = ?us @ r'" "[] \<notin> set r'" by blast
  have "attachment_fields message (field # fs) us = us @ (r @ r')"
    using r(1) r'(1) by simp
  moreover have "[] \<notin> set (r @ r')" using r(2) r'(2) by simp
  ultimately show ?case by blast
qed

lemma text_urls_nonempty: "[] \<notin> set (extract_image_urls_from_text content)"
  by (auto simp: extract_image_urls_from_text_def dest: valid_url_nonempty)

lemma text_data_urls_nonempty: "[] \<notin> set (extract_data_urls_from_text content)"
  by (auto simp: extract_data_urls_from_text_def dest: data_uris_nonempty)

lemma message_results_prefix:
  assumes "message_results choice (us, ds) = Inr (cu, cd)"
  shows "\<exists>ru rd. cu = us @ ru \<and> cd = ds @ rd \<and> [] \<notin> set ru \<and> [] \<notin> set rd"
proof -
  from assms obtain message where
    m: "(case map_of choice (py ''message'') of None \<Rightarrow> JObj [] | Some m \<Rightarrow> m) = JObj message"
    unfolding message_results_def by (auto split: json.splits)
  let ?mid = "case dict_get message (py ''content'') of
                JArr content \<Rightarrow>
                  (case content_parts content (us, []) of
                     (image_urls, text_parts) \<Rightarrow>
                       if text_parts \<noteq> [] then
                         (image_urls @ extract_image_urls_from_text (join_lines text_parts),
                          ds @ extract_data_urls_from_text (join_lines text_parts))
                       else (image_urls, ds))
              | JStr content \<Rightarrow>
                  (us @ extract_image_urls_from_text content,
                   ds @ extract_data_urls_from_text content)
              | _ \<Rightarrow> (us, ds)"
  have res: "cu = attachment_fields message
                      [py ''attachments'', py ''media'', py ''files'', py ''images''] (fst ?mid)"
      "cd = snd ?mid"
  proof -
    have "message_results choice (us, ds) =
        Inr (attachment_fields message [py ''attachments'', py ''media'', py ''files'', py ''images'']
               (fst ?mid), snd ?mid)"
      unfolding message_results_def m
      by (simp only: json.case fst_conv snd_conv case_prod_beta)
    with assms show
      "cu = attachment_fields message [py ''attachments'', py ''media'', py ''files'', py ''images'']
              (fst ?mid)"
      "cd = snd ?mid"
      by (simp_all del: attachment_fields.simps)
  qed
  have mid: "\<exists>ru rd. ?mid = (us @ ru, ds @ rd) \<and> [] \<notin> set ru \<and> [] \<notin> set rd"
  proof (cases "dict_get message (py ''content'')")
    case (JArr content)
    obtain iu tp where c: "content_parts content (us, []) = (iu, tp)"
      by (cases "content_parts content (us, [])")
    from content_parts_prefix [of content us "[]"] c obtain r where
      r: "iu = us @ r" "[] \<notin> set r" by auto
    show ?thesis
    proof (cases "tp = []")
      case True
      then have "?mid = (us @ r, ds @ [])" using JArr c r by simp
      then show ?thesis using r(2) by fastforce
    next
      case False
      then have "?mid = (us @ (r @ extract_image_urls_from_text (join_lines tp)),
                         ds @ extract_data_urls_from_text (join_lines tp))"
        using JArr c r by simp
      moreover have "[] \<notin> set (r @ extract_image_urls_from_text (join_lines tp))"
        using r(2) text_urls_nonempty by simp
      ultimately show ?thesis using text_data_urls_nonempty by blast
    qed
  next
    case (JStr content)
    then have "?mid = (us @ extract_image_urls_from_text content,
                       ds @ extract_data_urls_from_text content)" by simp
    then show ?thesis using text_urls_nonempty text_data_urls_nonempty by blast
  next
    case JNull
    then have "?mid = (us @ [], ds @ [])" by simp
    then show ?thesis by fastforce
  next
    case (JBool x)
    then have "?mid = (us @ [], ds @ [])" by simp
    then show ?thesis by fastforce
  next
    case (JNum x)
    then have "?mid = (us @ [], ds @ [])" by simp
    then show ?thesis by fastforce
  next
    case (JObj x)
    then have "?mid = (us @ [], ds @ [])" by simp
    then show ?thesis by fastforce
  qed
  then obtain ru rd where mid': "?mid = (us @ ru, ds @ rd)" "[] \<notin> set ru" "[] \<notin> set rd"
    by blast
  from attachment_fields_prefix [of message "[py ''attachments'', py ''media'', py ''files'', py ''images'']"
      "us @ ru"]
  obtain r where r: "attachment_fields message
      [py ''attachments'', py ''media'', py ''files'', py ''images''] (us @ ru) = (us @ ru) @ r" "[] \<notin> set r"
    by blast
  have "cu = us @ (ru @ r)" using res(1) mid'(1) r(1) by (simp del: attachment_fields.simps)
  moreover have "cd = ds @ rd" using res(2) mid'(1) by simp
  moreover have "[] \<notin> set (ru @ r)" using mid'(2) r(2) by simp
  ultimately show ?thesis using mid'(3) by blast
qed

lemma data_items_nonempty:
  "[] \<notin> set (fst (data_items items ([], []))) \<and> [] \<notin> set (snd (data_items items ([], [])))"
  using data_items_sets [of items "[]" "[]"] by (auto dest: valid_url_nonempty)

lemma collect_prefix:
  assumes "collect_image_results rd = Inr (cu, cd)"
  shows "\<exists>ru rds.
     cu = fst (case dict_get rd (py ''data'') of
                 JArr data_field \<Rightarrow> data_items data_field ([], []) | _ \<Rightarrow> ([], [])) @ ru \<and>
     cd = snd (case dict_get rd (py ''data'') of
                 JArr data_field \<Rightarrow> data_items data_field ([], []) | _ \<Rightarrow> ([], [])) @ rds \<and>
     [] \<notin> set cu \<and> [] \<notin> set cd"
proof -
  define D where "D = (case dict_get rd (py ''data'') of
              JArr data_field \<Rightarrow> data_items data_field ([], []) | _ \<Rightarrow> ([], []))"
  have D: "[] \<notin> set (fst D)" "[] \<notin> set (snd D)"
    unfolding D_def using data_items_nonempty by (cases "dict_get rd (py ''data'')"; simp)+
  have "\<exists>ru rds. cu = fst D @ ru \<and> cd = snd D @ rds \<and> [] \<notin> set ru \<and> [] \<notin> set rds"
  proof (cases "first_choice rd")
    case (JObj choice)
    have "collect_image_results rd = message_results choice (fst D, snd D)"
      unfolding collect_image_results_def JObj D_def by simp
    with assms have "message_results choice (fst D, snd D) = Inr (cu, cd)" by simp
    from message_results_prefix [OF this] show ?thesis .
  next
    case JNull
    then have "collect_image_results rd = Inr D"
      unfolding collect_image_results_def D_def by simp
    with assms have "cu = fst D @ [] \<and> cd = snd D @ [] \<and> [] \<notin> set [] \<and> [] \<notin> set []" by auto
    then show ?thesis by (intro exI)
  next
    case (JBool x)
    then have "collect_image_results rd = Inr D"
      unfolding collect_image_results_def D_def by simp
    with assms have "cu = fst D @ [] \<and> cd = snd D @ [] \<and> [] \<notin> set [] \<and> [] \<notin> set []" by auto
    then show ?thesis by (intro exI)
  next
    case (JNum x)
    then have "collect_image_results rd = Inr D"
      unfolding collect_image_results_def D_def by simp
    with assms have "cu = fst D @ [] \<and> cd = snd D @ [] \<and> [] \<notin> set [] \<and> [] \<notin> set []" by auto
    then show ?thesis by (intro exI)
  next
    case (JStr x)
    then have "collect_image_results rd = Inr D"
      unfolding collect_image_results_def D_def by simp
    with assms have "cu = fst D @ [] \<and> cd = snd D @ [] \<and> [] \<notin> set [] \<and> [] \<notin> set []" by auto
    then show ?thesis by (intro exI)
  next
    case (JArr x)
    then have "collect_image_results rd = Inr D"
      unfolding collect_image_results_def D_def by simp
    with assms have "cu = fst D @ [] \<and> cd = snd D @ [] \<and> [] \<notin> set [] \<and> [] \<notin> set []" by auto
    then show ?thesis by (intro exI)
  qed
  then obtain ru rds where
    r: "cu = fst D @ ru" "cd = snd D @ rds" "[] \<notin> set ru" "[] \<notin> set rds" by blast
  have "[] \<notin> set cu" "[] \<notin> set cd" using r D by simp_all
  with r(1,2) have "cu = fst D @ ru \<and> cd = snd D @ rds \<and> [] \<notin> set cu \<and> [] \<notin> set cd" by simp
  then have "\<exists>ru rds. cu = fst D @ ru \<and> cd = snd D @ rds \<and> [] \<notin> set cu \<and> [] \<notin> set cd"
    by (intro exI)
  then show ?thesis unfolding D_def .
qed

lemma collect_ok:
  assumes "\<And>choice m. first_choice rd = JObj choice \<Longrightarrow> map_of choice (py ''message'') = Some m \<Longrightarrow>
             \<exists>message. m = JObj message"
  shows "\<exists>cu cd. collect_image_results rd = Inr (cu, cd)"
proof (cases "\<exists>choice. first_choice rd = JObj choice")
  case True
  then obtain choice where c: "first_choice rd = JObj choice" by blast
  have "\<exists>message. (case map_of choice (py ''message'') of None \<Rightarrow> JObj [] | Some m \<Rightarrow> m) = JObj message"
    using assms [OF c] by (cases "map_of choice (py ''message'')") auto
  then obtain message where
    m: "(case map_of choice (py ''message'') of None \<Rightarrow> JObj [] | Some m \<Rightarrow> m) = JObj message" by blast
  have "\<exists>r. message_results choice acc = Inr r" for acc
    unfolding message_results_def m
    by (simp only: json.case case_prod_beta) blast
  then show ?thesis unfolding collect_image_results_def c by (simp only: json.case) auto
next
  case False
  then show ?thesis unfolding collect_image_results_def by (cases "first_choice rd") auto
qed

lemma collect_raises:
  assumes "first_choice rd = JObj choice" "map_of choice (py ''message'') = Some m"
    "\<forall>message. m \<noteq> JObj message"
  shows "collect_image_results rd = Inl AttributeError"
  unfolding collect_image_results_def message_results_def using assms
  by (cases m) simp_all

lemma extract_obj:
  assumes "collect_image_results rd = Inr (cu, cd)"
  shows "fst (extract_image_results (JObj rd)) = dedupe_preserve cu"
    and "fst (snd (extract_image_results (JObj rd))) = dedupe_preserve cd"
    and "snd (snd (extract_image_results (JObj rd))) = None \<longleftrightarrow> cu \<noteq> [] \<or> cd \<noteq> []"
proof -
  from collect_prefix [OF assms] have ne: "[] \<notin> set cu" "[] \<notin> set cd" by auto
  have e: "dedupe_preserve cu = [] \<longleftrightarrow> cu = []" "dedupe_preserve cd = [] \<longleftrightarrow> cd = []"
  proof -
    show "dedupe_preserve cu = [] \<longleftrightarrow> cu = []"
      unfolding dedupe_preserve_empty_iff using ne(1) by (cases cu) auto
    show "dedupe_preserve cd = [] \<longleftrightarrow> cd = []"
      unfolding dedupe_preserve_empty_iff using ne(2) by (cases cd) auto
  qed
  show "fst (extract_image_results (JObj rd)) = dedupe_preserve cu"
    unfolding extract_image_results_def using assms by simp
  show "fst (snd (extract_image_results (JObj rd))) = dedupe_preserve cd"
    unfolding extract_image_results_def using assms by simp
  show "snd (snd (extract_image_results (JObj rd))) = None \<longleftrightarrow> cu \<noteq> [] \<or> cd \<noteq> []"
    unfolding extract_image_results_def using assms e by simp
qed

lemma extract_error_lists:
  "snd (snd (extract_image_results r)) \<noteq> None \<longleftrightarrow>
     fst (extract_image_results r) = [] \<and> fst (snd (extract_image_results r)) = []"
proof (cases r)
  case (JObj rd)
  show ?thesis
  proof (cases "collect_image_results rd")
    case (Inl e)
    then show ?thesis unfolding JObj extract_image_results_def by simp
  next
    case (Inr p)
    obtain cu cd where p: "p = (cu, cd)" by (cases p)
    show ?thesis unfolding JObj extract_image_results_def using Inr p by simp
  qed
qed (simp_all add: extract_image_results_def)

section \<open>The structured \<open>data\<close> field\<close>

lemma data_items_prefix:
  "\<exists>ru rds. data_items items (us, ds) = (us @ ru, ds @ rds)"
proof (induction items arbitrary: us ds)
  case Nil
  then show ?case by simp
next
  case (Cons item items)
  show ?case
  proof (cases item)
    case (JObj d)
    let ?us = "case dict_get d (py ''url'') of
                JStr url \<Rightarrow> if is_valid_image_url url False then us @ [url] else us
              | _ \<Rightarrow> us"
    let ?ds = "case dict_get d (py ''b64_json'') of
                JStr b64_json \<Rightarrow>
                  if b64_json \<noteq> [] then ds @ [py ''data:image/png;base64,'' @ b64_json]
                  else ds
              | _ \<Rightarrow> ds"
    have step: "data_items (item # items) (us, ds) = data_items items (?us, ?ds)"
      using JObj by simp
    have "\<exists>r. ?us = us @ r" by (cases "dict_get d (py ''url'')") auto
    then obtain r1 where r1: "?us = us @ r1" by blast
    have "\<exists>r. ?ds = ds @ r" by (cases "dict_get d (py ''b64_json'')") auto
    then obtain r2 where r2: "?ds = ds @ r2" by blast
    from Cons.IH [of ?us ?ds] obtain ru rds where
      "data_items items (?us, ?ds) = (?us @ ru, ?ds @ rds)" by blast
    then have "data_items (item # items) (us, ds) = (us @ (r1 @ ru), ds @ (r2 @ rds))"
      unfolding step using r1 r2 by simp
    then show ?thesis by blast
  qed (use Cons.IH [of us ds] in auto)
qed

text \<open>
  Claim C4. The loop over the top-level \<open>data\<close> list appends, to the URLs collected so far,
  exactly the string \<open>url\<close> of every item that is an object and whose URL passes the
  validation, and, to the inline data collected so far, exactly
  \<open>data:image/png;base64,<payload>\<close> for the non-empty string \<open>b64_json\<close> of every
  such item. When the message of the first choice, if there is one, is an object, all of
  them are in the lists the parser returns. Parsing
  \<open>{data: [{url: "https://x/a.png"}, {b64_json: <base64>}]}\<close> with a non-empty payload
  returns \<open>(["https://x/a.png"], ["data:image/png;base64,<base64>"])\<close> and no error.
\<close>

theorem data_field_items_extracted:
  "(set (fst (data_items items (us, ds))) =
      set us \<union> {u. \<exists>d. JObj d \<in> set items \<and> dict_get d (py ''url'') = JStr u \<and>
                     is_valid_image_url u False} \<and>
    set (snd (data_items items (us, ds))) =
      set ds \<union> {py ''data:image/png;base64,'' @ b | b d.
                   JObj d \<in> set items \<and> dict_get d (py ''b64_json'') = JStr b \<and> b \<noteq> []}) \<and>
   (\<exists>ru rds. data_items items (us, ds) = (us @ ru, ds @ rds)) \<and>
   (dict_get rd (py ''data'') = JArr items \<and>
    (\<forall>choice m. first_choice rd = JObj choice \<and> map_of choice (py ''message'') = Some m \<longrightarrow>
        (\<exists>message. m = JObj message)) \<longrightarrow>
      {u. \<exists>d. JObj d \<in> set items \<and> dict_get d (py ''url'') = JStr u \<and> is_valid_image_url u False}
        \<subseteq> set (fst (extract_image_results (JObj rd))) \<and>
      {py ''data:image/png;base64,'' @ b | b d.
         JObj d \<in> set items \<and> dict_get d (py ''b64_json'') = JStr b \<and> b \<noteq> []}
        \<subseteq> set (fst (snd (extract_image_results (JObj rd))))) \<and>
   (b64 \<noteq> [] \<longrightarrow>
      extract_image_results
        (JObj [(py ''data'', JArr [JObj [(py ''url'', JStr (py ''https://x/a.png''))],
                              JObj [(py ''b64_json'', JStr b64)]])]) =
      ([py ''https://x/a.png''], [py ''data:image/png;base64,'' @ b64], None))"
proof (intro conjI impI)
  show "set (fst (data_items items (us, ds))) =
      set us \<union> {u. \<exists>d. JObj d \<in> set items \<and> dict_get d (py ''url'') = JStr u \<and>
                     is_valid_image_url u False}"
    using data_items_sets [of items us ds] by (rule conjunct1)
  show "set (snd (data_items items (us, ds))) =
      set ds \<union> {py ''data:image/png;base64,'' @ b | b d.
                   JObj d \<in> set items \<and> dict_get d (py ''b64_json'') = JStr b \<and> b \<noteq> []}"
    using data_items_sets [of items us ds] by (rule conjunct2)
  show "\<exists>ru rds. data_items items (us, ds) = (us @ ru, ds @ rds)"
    by (rule data_items_prefix)
next
  assume a: "dict_get rd (py ''data'') = JArr items \<and>
    (\<forall>choice m. first_choice rd = JObj choice \<and> map_of choice (py ''message'') = Some m \<longrightarrow>
        (\<exists>message. m = JObj message))"
  then have "\<exists>cu cd. collect_image_results rd = Inr (cu, cd)"
    by (intro collect_ok) blast
  then obtain cu cd where c: "collect_image_results rd = Inr (cu, cd)" by blast
  from collect_prefix [OF c] a obtain ru rds where
    p: "cu = fst (data_items items ([], [])) @ ru" "cd = snd (data_items items ([], [])) @ rds"
      "[] \<notin> set cu" "[] \<notin> set cd"
    by auto
  have su: "set (fst (extract_image_results (JObj rd))) = set cu"
    unfolding extract_obj(1) [OF c] set_dedupe_preserve using p(3) by simp
  have sd: "set (fst (snd (extract_image_results (JObj rd)))) = set cd"
    unfolding extract_obj(2) [OF c] set_dedupe_preserve using p(4) by simp
  note ds = data_items_sets [of items "[]" "[]"]
  show "{u. \<exists>d. JObj d \<in> set items \<and> dict_get d (py ''url'') = JStr u \<and> is_valid_image_url u False}
        \<subseteq> set (fst (extract_image_results (JObj rd)))"
    unfolding su p(1) using ds by simp
  show "{py ''data:image/png;base64,'' @ b | b d.
         JObj d \<in> set items \<and> dict_get d (py ''b64_json'') = JStr b \<and> b \<noteq> []}
        \<subseteq> set (fst (snd (extract_image_results (JObj rd))))"
    unfolding sd p(2) using ds by simp
next
  assume "b64 \<noteq> []"
  then show "extract_image_results
        (JObj [(py ''data'', JArr [JObj [(py ''url'', JStr (py ''https://x/a.png''))],
                              JObj [(py ''b64_json'', JStr b64)]])]) =
      ([py ''https://x/a.png''], [py ''data:image/png;base64,'' @ b64], None)"
    by (simp add: extract_image_results_def collect_image_results_def first_choice_def
        dict_get_def is_valid_image_url_def startswith_def invalid_chars_def dedupe_preserve_def)
qed

theorem data_field_items_extracted_witness:
  "extract_image_results
     (JObj [(py ''data'', JArr [JObj [(py ''url'', JStr (py ''https://x/a.png''))],
                           JObj [(py ''b64_json'', JStr (py ''QUJD''))]])]) =
     ([py ''https://x/a.png''], [py ''data:image/png;base64,QUJD''], None) \<and>
   (py ''https://x/a.png'') \<in> set (fst (extract_image_results
     (JObj [(py ''data'', JArr [JObj [(py ''url'', JStr (py ''https://x/a.png''))],
                           JObj [(py ''b64_json'', JStr (py ''QUJD''))]])])))"
proof
  let ?items = "[JObj [(py ''url'', JStr (py ''https://x/a.png''))], JObj [(py ''b64_json'', JStr (py ''QUJD''))]]"
  let ?rd = "[(py ''data'', JArr ?items)]"
  have "py ''QUJD'' \<noteq> []" by simp
  from data_field_items_extracted [where ?b64.0 = "py ''QUJD''",
      THEN conjunct2, THEN conjunct2, THEN conjunct2, THEN mp, OF this]
  show "extract_image_results (JObj ?rd) =
      ([py ''https://x/a.png''], [py ''data:image/png;base64,QUJD''], None)" by simp
  have pre: "dict_get ?rd (py ''data'') = JArr ?items \<and>
    (\<forall>choice m. first_choice ?rd = JObj choice \<and> map_of choice (py ''message'') = Some m \<longrightarrow>
        (\<exists>message. m = JObj message))"
    by (simp add: dict_get_def first_choice_def)
  have v: "is_valid_image_url (py ''https://x/a.png'') False"
    by (simp add: is_valid_image_url_def startswith_def invalid_chars_def)
  have "py ''https://x/a.png'' \<in> {u. \<exists>d. JObj d \<in> set ?items \<and> dict_get d (py ''url'') = JStr u \<and>
      is_valid_image_url u False}"
    using v by (intro CollectI exI [of _ "[(py ''url'', JStr (py ''https://x/a.png''))]"])
      (simp add: dict_get_def)
  with data_field_items_extracted [of ?items _ _ ?rd,
      THEN conjunct2, THEN conjunct2, THEN conjunct1, THEN mp, OF pre, THEN conjunct1]
  show "py ''https://x/a.png'' \<in> set (fst (extract_image_results (JObj ?rd)))"
    by (rule rev_subsetD [rotated])
qed

section \<open>The returned lists\<close>

lemma extract_not_collected:
  "(\<forall>rd cu cd. r = JObj rd \<longrightarrow> collect_image_results rd \<noteq> Inr (cu, cd)) \<Longrightarrow>
   fst (extract_image_results r) = [] \<and> fst (snd (extract_image_results r)) = []"
proof (cases r)
  case (JObj rd)
  assume a: "\<forall>rd cu cd. r = JObj rd \<longrightarrow> collect_image_results rd \<noteq> Inr (cu, cd)"
  show ?thesis
  proof (cases "collect_image_results rd")
    case (Inl e)
    then show ?thesis unfolding JObj extract_image_results_def by simp
  next
    case (Inr p)
    then show ?thesis using a JObj by (cases p) auto
  qed
qed (simp_all add: extract_image_results_def)

text \<open>
  Claim C6. For every input of the parser, neither returned list holds a value twice.
  When the parser has collected the lists \<open>cu\<close> and \<open>cd\<close> from a response object, the
  returned lists hold the same values as \<open>cu\<close> and \<open>cd\<close>, and two values stand in a
  returned list in the order of their first occurrences in the collected list: a URL
  collected twice, from whatever sources, is returned once, at the place of its first
  occurrence.
\<close>

theorem extract_results_deduplicated:
  "distinct (fst (extract_image_results r)) \<and>
   distinct (fst (snd (extract_image_results r))) \<and>
   (\<forall>rd cu cd. r = JObj rd \<and> collect_image_results rd = Inr (cu, cd) \<longrightarrow>
      set (fst (extract_image_results r)) = set cu \<and>
      set (fst (snd (extract_image_results r))) = set cd \<and>
      (\<forall>x \<in> set cu. \<forall>y \<in> set cu.
         (length (takeWhile (\<lambda>z. z \<noteq> x) (fst (extract_image_results r)))
            < length (takeWhile (\<lambda>z. z \<noteq> y) (fst (extract_image_results r)))) =
         (length (takeWhile (\<lambda>z. z \<noteq> x) cu) < length (takeWhile (\<lambda>z. z \<noteq> y) cu))) \<and>
      (\<forall>x \<in> set cd. \<forall>y \<in> set cd.
         (length (takeWhile (\<lambda>z. z \<noteq> x) (fst (snd (extract_image_results r))))
            < length (takeWhile (\<lambda>z. z \<noteq> y) (fst (snd (extract_image_results r))))) =
         (length (takeWhile (\<lambda>z. z \<noteq> x) cd) < length (takeWhile (\<lambda>z. z \<noteq> y) cd))))"
proof -
  have coll: "set (fst (extract_image_results r)) = set cu \<and>
      set (fst (snd (extract_image_results r))) = set cd \<and>
      distinct (fst (extract_image_results r)) \<and>
      distinct (fst (snd (extract_image_results r))) \<and>
      (\<forall>x \<in> set cu. \<forall>y \<in> set cu.
         (length (takeWhile (\<lambda>z. z \<noteq> x) (fst (extract_image_results r)))
            < length (takeWhile (\<lambda>z. z \<noteq> y) (fst (extract_image_results r)))) =
         (length (takeWhile (\<lambda>z. z \<noteq> x) cu) < length (takeWhile (\<lambda>z. z \<noteq> y) cu))) \<and>
      (\<forall>x \<in> set cd. \<forall>y \<in> set cd.
         (length (takeWhile (\<lambda>z. z \<noteq> x) (fst (snd (extract_image_results r))))
            < length (takeWhile (\<lambda>z. z \<noteq> y) (fst (snd (extract_image_results r))))) =
         (length (takeWhile (\<lambda>z. z \<noteq> x) cd) < length (takeWhile (\<lambda>z. z \<noteq> y) cd)))"
    if h: "r = JObj rd \<and> collect_image_results rd = Inr (cu, cd)" for rd cu cd
  proof -
    from h have c: "collect_image_results rd = Inr (cu, cd)" and r: "r = JObj rd" by simp_all
    from collect_prefix [OF c] have ne: "[] \<notin> set cu" "[] \<notin> set cd" by auto
    have u: "fst (extract_image_results r) = dedupe_preserve cu"
      and d: "fst (snd (extract_image_results r)) = dedupe_preserve cd"
      unfolding r by (rule extract_obj [OF c])+
    have su: "set (dedupe_preserve cu) = set cu" "set (dedupe_preserve cd) = set cd"
      using ne by (simp_all add: set_dedupe_preserve)
    show ?thesis
      unfolding u d su
      using dedupe_preserve_order [of _ cu] dedupe_preserve_order [of _ cd] su
        distinct_dedupe_preserve
      by simp
  qed
  have third: "\<forall>rd cu cd. r = JObj rd \<and> collect_image_results rd = Inr (cu, cd) \<longrightarrow>
      set (fst (extract_image_results r)) = set cu \<and>
      set (fst (snd (extract_image_results r))) = set cd \<and>
      (\<forall>x \<in> set cu. \<forall>y \<in> set cu.
         (length (takeWhile (\<lambda>z. z \<noteq> x) (fst (extract_image_results r)))
            < length (takeWhile (\<lambda>z. z \<noteq> y) (fst (extract_image_results r)))) =
         (length (takeWhile (\<lambda>z. z \<noteq> x) cu) < length (takeWhile (\<lambda>z. z \<noteq> y) cu))) \<and>
      (\<forall>x \<in> set cd. \<forall>y \<in> set cd.
         (length (takeWhile (\<lambda>z. z \<noteq> x) (fst (snd (extract_image_results r))))
            < length (takeWhile (\<lambda>z. z \<noteq> y) (fst (snd (extract_image_results r))))) =
         (length (takeWhile (\<lambda>z. z \<noteq> x) cd) < length (takeWhile (\<lambda>z. z \<noteq> y) cd)))"
    using coll by (intro allI impI) simp
  have dist: "distinct (fst (extract_image_results r)) \<and>
      distinct (fst (snd (extract_image_results r)))"
  proof (cases "\<exists>rd cu cd. r = JObj rd \<and> collect_image_results rd = Inr (cu, cd)")
    case True
    then obtain rd cu cd where h: "r = JObj rd \<and> collect_image_results rd = Inr (cu, cd)"
      by blast
    show ?thesis using coll [OF h] by simp
  next
    case False
    then have "\<forall>rd cu cd. r = JObj rd \<longrightarrow> collect_image_results rd \<noteq> Inr (cu, cd)" by simp
    from extract_not_collected [OF this] show ?thesis by simp
  qed
  from dist third show ?thesis by (intro conjI) (simp_all only: simp_thms)
qed

theorem extract_results_deduplicated_witness:
  "collect_image_results
     [(py ''data'', JArr [JObj [(py ''url'', JStr (py ''https://x/a.png''))],
                      JObj [(py ''url'', JStr (py ''https://x/b.png''))]]),
      (py ''choices'', JArr [JObj [(py ''message'', JObj
         [(py ''images'', JArr [JObj [(py ''url'', JStr (py ''https://x/a.png''))]])])]])] =
     Inr ([py ''https://x/a.png'', py ''https://x/b.png'', py ''https://x/a.png''], []) \<and>
   fst (extract_image_results (JObj
     [(py ''data'', JArr [JObj [(py ''url'', JStr (py ''https://x/a.png''))],
                      JObj [(py ''url'', JStr (py ''https://x/b.png''))]]),
      (py ''choices'', JArr [JObj [(py ''message'', JObj
         [(py ''images'', JArr [JObj [(py ''url'', JStr (py ''https://x/a.png''))]])])]])])) =
     [py ''https://x/a.png'', py ''https://x/b.png''] \<and>
   distinct (fst (extract_image_results (JObj
     [(py ''data'', JArr [JObj [(py ''url'', JStr (py ''https://x/a.png''))],
                      JObj [(py ''url'', JStr (py ''https://x/b.png''))]]),
      (py ''choices'', JArr [JObj [(py ''message'', JObj
         [(py ''images'', JArr [JObj [(py ''url'', JStr (py ''https://x/a.png''))]])])]])]))) \<and>
   set (fst (extract_image_results (JObj
     [(py ''data'', JArr [JObj [(py ''url'', JStr (py ''https://x/a.png''))],
                      JObj [(py ''url'', JStr (py ''https://x/b.png''))]]),
      (py ''choices'', JArr [JObj [(py ''message'', JObj
         [(py ''images'', JArr [JObj [(py ''url'', JStr (py ''https://x/a.png''))]])])]])]))) =
     set [py ''https://x/a.png'', py ''https://x/b.png'', py ''https://x/a.png'']"
proof -
  let ?rd = "[(py ''data'', JArr [JObj [(py ''url'', JStr (py ''https://x/a.png''))],
                      JObj [(py ''url'', JStr (py ''https://x/b.png''))]]),
      (py ''choices'', JArr [JObj [(py ''message'', JObj
         [(py ''images'', JArr [JObj [(py ''url'', JStr (py ''https://x/a.png''))]])])]])]"
  have c: "collect_image_results ?rd =
      Inr ([py ''https://x/a.png'', py ''https://x/b.png'', py ''https://x/a.png''], [])"
    by (simp add: collect_image_results_def message_results_def first_choice_def dict_get_def
        is_valid_image_url_def startswith_def invalid_chars_def)
  have e: "fst (extract_image_results (JObj ?rd)) = [py ''https://x/a.png'', py ''https://x/b.png'']"
    unfolding extract_obj(1) [OF c] by (simp add: dedupe_preserve_def)
  note t = extract_results_deduplicated [of "JObj ?rd"]
  have d: "distinct (fst (extract_image_results (JObj ?rd)))"
    by (rule t [THEN conjunct1])
  have "JObj ?rd = JObj ?rd \<and> collect_image_results ?rd =
      Inr ([py ''https://x/a.png'', py ''https://x/b.png'', py ''https://x/a.png''], [])"
    using c by simp
  from t [THEN conjunct2, THEN conjunct2, THEN spec, THEN spec, THEN spec, THEN mp, OF this]
  have s: "set (fst (extract_image_results (JObj ?rd))) =
     set [py ''https://x/a.png'', py ''https://x/b.png'', py ''https://x/a.png'']"
    by (rule conjunct1)
  from c e d s show ?thesis by (intro conjI)
qed

text \<open>
  Claim C7. For every input, the parser returns an error exactly when both returned lists
  are empty. For a response object in which the message of the first choice, if there is
  one, is an object, the parser collects its lists without raising, it returns no error
  exactly when one of the collected lists is not empty, and every collected image is
  returned.
\<close>

theorem extract_error_iff_nothing_extracted:
  "(snd (snd (extract_image_results r)) \<noteq> None \<longleftrightarrow>
      fst (extract_image_results r) = [] \<and> fst (snd (extract_image_results r)) = []) \<and>
   (r = JObj rd \<and>
    (\<forall>choice m. first_choice rd = JObj choice \<and> map_of choice (py ''message'') = Some m \<longrightarrow>
        (\<exists>message. m = JObj message)) \<longrightarrow>
      (\<exists>cu cd. collect_image_results rd = Inr (cu, cd) \<and>
         (snd (snd (extract_image_results r)) = None \<longleftrightarrow> cu \<noteq> [] \<or> cd \<noteq> []) \<and>
         set (fst (extract_image_results r)) = set cu \<and>
         set (fst (snd (extract_image_results r))) = set cd))"
proof (intro conjI impI)
  show "snd (snd (extract_image_results r)) \<noteq> None \<longleftrightarrow>
      fst (extract_image_results r) = [] \<and> fst (snd (extract_image_results r)) = []"
    by (rule extract_error_lists)
next
  assume a: "r = JObj rd \<and>
    (\<forall>choice m. first_choice rd = JObj choice \<and> map_of choice (py ''message'') = Some m \<longrightarrow>
        (\<exists>message. m = JObj message))"
  then have "\<exists>cu cd. collect_image_results rd = Inr (cu, cd)"
    by (intro collect_ok) blast
  then obtain cu cd where c: "collect_image_results rd = Inr (cu, cd)" by blast
  from a have r: "r = JObj rd" by simp
  from collect_prefix [OF c] have ne: "[] \<notin> set cu" "[] \<notin> set cd" by auto
  have "snd (snd (extract_image_results r)) = None \<longleftrightarrow> cu \<noteq> [] \<or> cd \<noteq> []"
    unfolding r by (rule extract_obj(3) [OF c])
  moreover have "set (fst (extract_image_results r)) = set cu"
    unfolding r extract_obj(1) [OF c] set_dedupe_preserve using ne by simp
  moreover have "set (fst (snd (extract_image_results r))) = set cd"
    unfolding r extract_obj(2) [OF c] set_dedupe_preserve using ne by simp
  ultimately show "\<exists>cu cd. collect_image_results rd = Inr (cu, cd) \<and>
         (snd (snd (extract_image_results r)) = None \<longleftrightarrow> cu \<noteq> [] \<or> cd \<noteq> []) \<and>
         set (fst (extract_image_results r)) = set cu \<and>
         set (fst (snd (extract_image_results r))) = set cd"
    using c by (intro exI [of _ cu] exI [of _ cd] conjI)
qed

theorem extract_error_iff_nothing_extracted_witness:
  "extract_image_results (JObj [(py ''data'', JArr [JObj [(py ''url'', JStr (py ''https://x/a.png''))]])]) =
     ([py ''https://x/a.png''], [], None) \<and>
   extract_image_results (JObj [(py ''data'', JArr [JObj [(py ''url'', JStr (py ''ftp://x/a.png''))]])]) =
     ([], [], Some NoValidImage) \<and>
   (\<exists>cu cd. collect_image_results [(py ''data'', JArr [JObj [(py ''url'', JStr (py ''https://x/a.png''))]])] =
        Inr (cu, cd) \<and>
      (snd (snd (extract_image_results
          (JObj [(py ''data'', JArr [JObj [(py ''url'', JStr (py ''https://x/a.png''))]])]))) = None \<longleftrightarrow>
         cu \<noteq> [] \<or> cd \<noteq> []) \<and>
      set (fst (extract_image_results
          (JObj [(py ''data'', JArr [JObj [(py ''url'', JStr (py ''https://x/a.png''))]])]))) = set cu \<and>
      set (fst (snd (extract_image_results
          (JObj [(py ''data'', JArr [JObj [(py ''url'', JStr (py ''https://x/a.png''))]])])))) = set cd)"
proof (intro conjI)
  let ?rd = "[(py ''data'', JArr [JObj [(py ''url'', JStr (py ''https://x/a.png''))]])]"
  show "extract_image_results (JObj ?rd) = ([py ''https://x/a.png''], [], None)"
    by (simp add: extract_image_results_def collect_image_results_def first_choice_def
        dict_get_def is_valid_image_url_def startswith_def invalid_chars_def dedupe_preserve_def)
  show "extract_image_results (JObj [(py ''data'', JArr [JObj [(py ''url'', JStr (py ''ftp://x/a.png''))]])]) =
     ([], [], Some NoValidImage)"
    by (simp add: extract_image_results_def collect_image_results_def first_choice_def
        dict_get_def is_valid_image_url_def startswith_def invalid_chars_def dedupe_preserve_def)
  have pre: "JObj ?rd = JObj ?rd \<and>
    (\<forall>choice m. first_choice ?rd = JObj choice \<and> map_of choice (py ''message'') = Some m \<longrightarrow>
        (\<exists>message. m = JObj message))"
    by (simp add: first_choice_def)
  show "\<exists>cu cd. collect_image_results ?rd = Inr (cu, cd) \<and>
      (snd (snd (extract_image_results (JObj ?rd))) = None \<longleftrightarrow> cu \<noteq> [] \<or> cd \<noteq> []) \<and>
      set (fst (extract_image_results (JObj ?rd))) = set cu \<and>
      set (fst (snd (extract_image_results (JObj ?rd)))) = set cd"
    by (rule extract_error_iff_nothing_extracted [of "JObj ?rd" ?rd, THEN conjunct2, THEN mp,
          OF pre])
qed

section \<open>The attempts of the API client\<close>

lemma attempts_retry_step:
  assumes "case post payload k of Response s b \<Rightarrow> s \<noteq> 200 \<and> s \<noteq> 403 | _ \<Rightarrow> True"
    and "int k \<noteq> max_retry_attempts cfg - 1"
  shows "attempts cfg post payload (k # rest) =
     (fst (attempts cfg post payload rest), payload # snd (attempts cfg post payload rest))"
  using assms by (cases "post payload k") (auto split: prod.splits)

lemma attempts_skip:
  assumes "max_retry_attempts cfg = int n"
  shows "i < n \<Longrightarrow> k \<le> i \<Longrightarrow>
     (\<forall>j. k \<le> j \<and> j < i \<longrightarrow>
        (case post payload j of Response s b \<Rightarrow> s \<noteq> 200 \<and> s \<noteq> 403 | _ \<Rightarrow> True)) \<Longrightarrow>
     attempts cfg post payload [k ..< n] =
       (fst (attempts cfg post payload [i ..< n]),
        replicate (i - k) payload @ snd (attempts cfg post payload [i ..< n]))"
proof (induction "i - k" arbitrary: k)
  case 0
  then have "k = i" by simp
  then show ?case by simp
next
  case (Suc d)
  then have lt: "k < i" "k < n" by simp_all
  have up: "[k ..< n] = k # [Suc k ..< n]" using lt(2) by (rule upt_conv_Cons)
  have r: "case post payload k of Response s b \<Rightarrow> s \<noteq> 200 \<and> s \<noteq> 403 | _ \<Rightarrow> True"
    using Suc.prems(3) lt(1) by simp
  have nl: "int k \<noteq> max_retry_attempts cfg - 1" using assms lt Suc.prems(1) by simp
  have ih: "attempts cfg post payload [Suc k ..< n] =
       (fst (attempts cfg post payload [i ..< n]),
        replicate (i - Suc k) payload @ snd (attempts cfg post payload [i ..< n]))"
    using Suc.hyps(1) [of "Suc k"] Suc.hyps(2) Suc.prems lt by simp
  have "i - k = Suc (i - Suc k)" using lt(1) by simp
  then show ?case
    unfolding up
    using attempts_retry_step [of post payload k cfg "[Suc k ..< n]", OF r nl] ih by simp
qed

lemma attempts_terminal:
  assumes "i < n" "max_retry_attempts cfg = int n"
  shows "attempts cfg post payload [i ..< n] =
    ((case post payload i of
        Response s b \<Rightarrow>
          if s = 200 then
            (case b of
               None \<Rightarrow> ([], [], Some JsonDecodeFailed)
             | Some result \<Rightarrow>
                 (case extract_image_results result of
                    (us, ds, Some e) \<Rightarrow> ([], [], Some (ParseFailed e))
                  | (us, ds, None) \<Rightarrow> (us, ds, None)))
          else if s = 403 then ([], [], Some AccessDenied)
          else if Suc i = n then ([], [], Some (RequestFailed s))
          else fst (attempts cfg post payload [Suc i ..< n])
      | PostTimeout \<Rightarrow>
          if Suc i = n then ([], [], Some RequestTimeout)
          else fst (attempts cfg post payload [Suc i ..< n])
      | PostError \<Rightarrow>
          if Suc i = n then ([], [], Some RequestException)
          else fst (attempts cfg post payload [Suc i ..< n])),
     (case post payload i of
        Response s b \<Rightarrow>
          if s = 200 \<or> s = 403 \<or> Suc i = n then [payload]
          else payload # snd (attempts cfg post payload [Suc i ..< n])
      | _ \<Rightarrow>
          if Suc i = n then [payload]
          else payload # snd (attempts cfg post payload [Suc i ..< n])))"
proof -
  have up: "[i ..< n] = i # [Suc i ..< n]" using assms(1) by (rule upt_conv_Cons)
  have last: "int i = max_retry_attempts cfg - 1 \<longleftrightarrow> Suc i = n" using assms by auto
  have ne: "fst (extract_image_results result) \<noteq> [] \<or>
      fst (snd (extract_image_results result)) \<noteq> []"
    if "snd (snd (extract_image_results result)) = None" for result
    using that extract_error_lists [of result] by auto
  show ?thesis
  proof (cases "post payload i")
    case (Response s b)
    show ?thesis
    proof (cases b)
      case None
      then show ?thesis unfolding up using Response last by (simp split: prod.splits)
    next
      case (Some result)
      obtain us ds e where x: "extract_image_results result = (us, ds, e)"
        by (cases "extract_image_results result") auto
      show ?thesis
      proof (cases e)
        case None
        with x ne [of result] have "us \<noteq> [] \<or> ds \<noteq> []" by simp
        then show ?thesis unfolding up using Response Some x None last
          by (simp split: prod.splits)
      next
        case (Some err)
        then show ?thesis unfolding up using Response \<open>b = Some result\<close> x last
          by (simp split: prod.splits)
      qed
    qed
  next
    case PostTimeout
    then show ?thesis unfolding up using last by (simp split: prod.splits)
  next
    case PostError
    then show ?thesis unfolding up using last by (simp split: prod.splits)
  qed
qed

lemma attempts_nonempty_sent:
  "snd (attempts cfg post payload (k # rest)) \<noteq> []"
  by (cases "post payload k") (auto split: prod.splits option.splits)

text \<open>
  Claim C3. Let an API key be configured and let every attempt before attempt \<open>i\<close> (counted
  from 0, below \<open>max_retry_attempts\<close>) end in a response that is neither 200 nor 403, in
  a timeout or in a transport error. Then attempt \<open>i\<close> is made, and: a 403 response returns
  the access error at once; a 200 response whose body is not JSON returns the decoding
  error at once; a 200 response with a JSON body returns what the parser returns; any
  other response, a timeout or a transport error returns its own error when attempt \<open>i\<close>
  is the last one, and otherwise one more request is posted. In each case that returns,
  exactly \<open>i + 1\<close> requests were posted.
\<close>

theorem call_grok_api_retries:
  fixes cfg post prompt image i
  defines "payload \<equiv> request_payload cfg prompt image"
    and "call \<equiv> call_grok_api cfg post prompt image"
  assumes key: "api_key cfg \<noteq> []"
    and i: "i < nat (max_retry_attempts cfg)"
    and before: "\<forall>j<i. case post payload j of
                           Response s b \<Rightarrow> s \<noteq> 200 \<and> s \<noteq> 403 | _ \<Rightarrow> True"
  shows
    "(\<forall>b. post payload i = Response 403 b \<longrightarrow>
        call = (([], [], Some AccessDenied), replicate (Suc i) payload)) \<and>
     (post payload i = Response 200 None \<longrightarrow>
        call = (([], [], Some JsonDecodeFailed), replicate (Suc i) payload)) \<and>
     (\<forall>r. post payload i = Response 200 (Some r) \<longrightarrow>
        call = ((case extract_image_results r of
                   (us, ds, Some e) \<Rightarrow> ([], [], Some (ParseFailed e))
                 | (us, ds, None) \<Rightarrow> (us, ds, None)),
                replicate (Suc i) payload)) \<and>
     (int (Suc i) = max_retry_attempts cfg \<longrightarrow>
        (\<forall>s b. post payload i = Response s b \<and> s \<noteq> 200 \<and> s \<noteq> 403 \<longrightarrow>
           call = (([], [], Some (RequestFailed s)), replicate (Suc i) payload)) \<and>
        (post payload i = PostTimeout \<longrightarrow>
           call = (([], [], Some RequestTimeout), replicate (Suc i) payload)) \<and>
        (post payload i = PostError \<longrightarrow>
           call = (([], [], Some RequestException), replicate (Suc i) payload))) \<and>
     (int (Suc i) < max_retry_attempts cfg \<and>
      (case post payload i of Response s b \<Rightarrow> s \<noteq> 200 \<and> s \<noteq> 403 | _ \<Rightarrow> True) \<longrightarrow>
        Suc i < length (snd call))"
proof -
  define n where "n = nat (max_retry_attempts cfg)"
  have n: "max_retry_attempts cfg = int n" "i < n" using i by (simp_all add: n_def)
  have skip: "attempts cfg post payload [0 ..< n] =
       (fst (attempts cfg post payload [i ..< n]),
        replicate i payload @ snd (attempts cfg post payload [i ..< n]))"
    using attempts_skip [OF n(1) n(2), of 0 post payload] before by simp
  have call: "call = (fst (attempts cfg post payload [i ..< n]),
        replicate i payload @ snd (attempts cfg post payload [i ..< n]))"
    unfolding call_def call_grok_api_def using key skip
    by (simp add: payload_def [symmetric] n_def [symmetric])
  note fin = attempts_terminal [OF n(2) n(1), of post payload]
  have rep: "replicate i payload @ [payload] = replicate (Suc i) payload"
    by (simp add: replicate_append_same)
  have last: "int (Suc i) = max_retry_attempts cfg \<longleftrightarrow> Suc i = n" using n by auto
  have c1: "\<forall>b. post payload i = Response 403 b \<longrightarrow>
        call = (([], [], Some AccessDenied), replicate (Suc i) payload)"
    unfolding call fin by (auto simp: rep)
  have c2: "post payload i = Response 200 None \<longrightarrow>
        call = (([], [], Some JsonDecodeFailed), replicate (Suc i) payload)"
    unfolding call fin by (auto simp: rep)
  have c3: "\<forall>r. post payload i = Response 200 (Some r) \<longrightarrow>
        call = ((case extract_image_results r of
                   (us, ds, Some e) \<Rightarrow> ([], [], Some (ParseFailed e))
                 | (us, ds, None) \<Rightarrow> (us, ds, None)),
                replicate (Suc i) payload)"
    unfolding call fin by (auto simp: rep)
  have c4: "int (Suc i) = max_retry_attempts cfg \<longrightarrow>
        (\<forall>s b. post payload i = Response s b \<and> s \<noteq> 200 \<and> s \<noteq> 403 \<longrightarrow>
           call = (([], [], Some (RequestFailed s)), replicate (Suc i) payload)) \<and>
        (post payload i = PostTimeout \<longrightarrow>
           call = (([], [], Some RequestTimeout), replicate (Suc i) payload)) \<and>
        (post payload i = PostError \<longrightarrow>
           call = (([], [], Some RequestException), replicate (Suc i) payload))"
    unfolding last call fin by (auto simp: rep)
  have c5: "int (Suc i) < max_retry_attempts cfg \<and>
      (case post payload i of Response s b \<Rightarrow> s \<noteq> 200 \<and> s \<noteq> 403 | _ \<Rightarrow> True) \<longrightarrow>
        Suc i < length (snd call)"
  proof
    assume a: "int (Suc i) < max_retry_attempts cfg \<and>
      (case post payload i of Response s b \<Rightarrow> s \<noteq> 200 \<and> s \<noteq> 403 | _ \<Rightarrow> True)"
    then have lt: "Suc i < n" using n by simp
    then have up: "[Suc i ..< n] = Suc i # [Suc (Suc i) ..< n]" by (rule upt_conv_Cons)
    have "snd (attempts cfg post payload [Suc i ..< n]) \<noteq> []"
      unfolding up by (rule attempts_nonempty_sent)
    then have "0 < length (snd (attempts cfg post payload [Suc i ..< n]))" by simp
    moreover have "snd (attempts cfg post payload [i ..< n]) =
        payload # snd (attempts cfg post payload [Suc i ..< n])"
      unfolding fin using a lt by (cases "post payload i") auto
    ultimately show "Suc i < length (snd call)" unfolding call by simp
  qed
  from c1 c2 c3 c4 c5 show ?thesis by (intro conjI)
qed

theorem call_grok_api_retries_witness:
  "call_grok_api (default_config\<lparr>api_key := py ''k'', max_retry_attempts := 2\<rparr>)
     (\<lambda>p n. if n = 0 then Response 500 None
             else Response 200
               (Some (JObj [(py ''data'', JArr [JObj [(py ''url'', JStr (py ''https://x/a.png''))]])])))
     (py ''add sunglasses'') (py ''data:image/png;base64,QUJD'') =
     (([py ''https://x/a.png''], [], None),
      replicate 2 (request_payload (default_config\<lparr>api_key := py ''k'', max_retry_attempts := 2\<rparr>)
                     (py ''add sunglasses'') (py ''data:image/png;base64,QUJD''))) \<and>
   call_grok_api (default_config\<lparr>api_key := py ''k'', max_retry_attempts := 2\<rparr>)
     (\<lambda>p n. Response 403 None) (py ''add sunglasses'') (py ''data:image/png;base64,QUJD'') =
     (([], [], Some AccessDenied),
      replicate 1 (request_payload (default_config\<lparr>api_key := py ''k'', max_retry_attempts := 2\<rparr>)
                     (py ''add sunglasses'') (py ''data:image/png;base64,QUJD'')))"
proof
  let ?cfg = "default_config\<lparr>api_key := py ''k'', max_retry_attempts := 2\<rparr>"
  let ?good = "JObj [(py ''data'', JArr [JObj [(py ''url'', JStr (py ''https://x/a.png''))]])]"
  let ?postA = "\<lambda>(p :: json) (n :: nat). if n = 0 then Response 500 None else Response 200 (Some ?good)"
  let ?postB = "\<lambda>(p :: json) (n :: nat). Response 403 None"
  let ?p = "request_payload ?cfg (py ''add sunglasses'') (py ''data:image/png;base64,QUJD'')"
  have key: "api_key ?cfg \<noteq> []" by simp
  have i1: "1 < nat (max_retry_attempts ?cfg)" and i0: "0 < nat (max_retry_attempts ?cfg)"
    by simp_all
  have beforeA: "\<forall>j<1. case ?postA ?p j of
      Response s b \<Rightarrow> s \<noteq> 200 \<and> s \<noteq> 403 | _ \<Rightarrow> True" by simp
  have beforeB: "\<forall>j<0. case ?postB ?p j of
      Response s b \<Rightarrow> s \<noteq> 200 \<and> s \<noteq> 403 | _ \<Rightarrow> True" by simp
  have x: "extract_image_results ?good = ([py ''https://x/a.png''], [], None)"
    by (simp add: extract_image_results_def collect_image_results_def first_choice_def
        dict_get_def is_valid_image_url_def startswith_def invalid_chars_def dedupe_preserve_def)
  have "?postA ?p 1 = Response 200 (Some ?good)" by simp
  with call_grok_api_retries [of ?cfg 1 ?postA "py ''add sunglasses''" "py ''data:image/png;base64,QUJD''",
      OF key i1 beforeA, THEN conjunct2, THEN conjunct2, THEN conjunct1, THEN spec, of ?good]
  have "call_grok_api ?cfg ?postA (py ''add sunglasses'') (py ''data:image/png;base64,QUJD'') =
      ((case extract_image_results ?good of
                   (us, ds, Some e) \<Rightarrow> ([], [], Some (ParseFailed e))
                 | (us, ds, None) \<Rightarrow> (us, ds, None)), replicate (Suc 1) ?p)"
    by (rule mp)
  then show "call_grok_api ?cfg ?postA (py ''add sunglasses'') (py ''data:image/png;base64,QUJD'') =
      (([py ''https://x/a.png''], [], None), replicate 2 ?p)"
    unfolding x by (simp add: numeral_2_eq_2)
  have "?postB ?p 0 = Response 403 None" by simp
  with call_grok_api_retries [of ?cfg 0 ?postB "py ''add sunglasses''" "py ''data:image/png;base64,QUJD''",
      OF key i0 beforeB, THEN conjunct1, THEN spec, of None]
  have "call_grok_api ?cfg ?postB (py ''add sunglasses'') (py ''data:image/png;base64,QUJD'') =
      (([], [], Some AccessDenied), replicate (Suc 0) ?p)"
    by (rule mp)
  then show "call_grok_api ?cfg ?postB (py ''add sunglasses'') (py ''data:image/png;base64,QUJD'') =
      (([], [], Some AccessDenied), replicate 1 ?p)"
    by simp
qed

section \<open>The rate limit window\<close>







section \<open>The access check fails open\<close>

text \<open>
  Claim C9. When the body of the access check raises, the check returns no denial and
  leaves the state as it was; so it does when \<open>event.get_group_id\<close> raises. A denial
  is returned only when the body returned it. The body does raise: for a group that
  passes the lists, with rate limiting enabled and a window that is \<open>None\<close> or a
  string, the comparison raises \<open>TypeError\<close> and the request is allowed.
\<close>

theorem check_group_access_fails_open:
  "(check_group_access_body cfg st event now = Inl e \<longrightarrow>
      check_group_access cfg st event now = (None, st)) \<and>
   (get_group_id event = Inl e \<longrightarrow> check_group_access cfg st event now = (None, st)) \<and>
   (\<forall>d st'. check_group_access cfg st event now = (Some d, st') \<longrightarrow>
      check_group_access_body cfg st event now = Inr (Some d, st')) \<and>
   (get_group_id event = Inr (Some g) \<and> g \<noteq> [] \<and>
    \<not> (group_control_mode cfg = py ''whitelist'' \<and> g \<notin> set (group_list cfg)) \<and>
    \<not> (group_control_mode cfg = py ''blacklist'' \<and> g \<in> set (group_list cfg)) \<and>
    rate_limit_enabled cfg \<and>
    (rate_limit_window_seconds cfg = CNone \<or> (\<exists>s. rate_limit_window_seconds cfg = CStr s)) \<longrightarrow>
      check_group_access_body cfg st event now = Inl TypeError \<and>
      check_group_access cfg st event now = (None, st))"
proof (intro conjI impI allI)
  show "check_group_access cfg st event now = (None, st)"
    if "check_group_access_body cfg st event now = Inl e"
    using that by (simp add: check_group_access_def)
  show "check_group_access cfg st event now = (None, st)" if "get_group_id event = Inl e"
    using that by (simp add: check_group_access_def check_group_access_body_def)
  show "check_group_access_body cfg st event now = Inr (Some d, st')"
    if "check_group_access cfg st event now = (Some d, st')" for d st'
    using that by (cases "check_group_access_body cfg st event now")
      (simp_all add: check_group_access_def)
  assume a: "get_group_id event = Inr (Some g) \<and> g \<noteq> [] \<and>
    \<not> (group_control_mode cfg = py ''whitelist'' \<and> g \<notin> set (group_list cfg)) \<and>
    \<not> (group_control_mode cfg = py ''blacklist'' \<and> g \<in> set (group_list cfg)) \<and>
    rate_limit_enabled cfg \<and>
    (rate_limit_window_seconds cfg = CNone \<or> (\<exists>s. rate_limit_window_seconds cfg = CStr s))"
  then have w: "ge_cfg x (rate_limit_window_seconds cfg) = Inl TypeError" for x
    by (auto simp: ge_cfg_def)
  have "rate_limit_check cfg st g now = Inl TypeError"
    unfolding rate_limit_check_def by (simp add: w split: prod.splits)
  then show body: "check_group_access_body cfg st event now = Inl TypeError"
    unfolding check_group_access_body_def using a by simp
  then show "check_group_access cfg st event now = (None, st)"
    by (simp add: check_group_access_def)
qed

theorem check_group_access_fails_open_witness:
  "check_group_access_body (default_config\<lparr>rate_limit_window_seconds := CStr (py ''3600'')\<rparr>)
     \<lparr>rate_limit_bucket = [(py ''g1'') \<mapsto> (0, 5)], processing_tasks = Map.empty\<rparr>
     \<lparr>get_group_id = Inr (Some (py ''g1'')), get_sender_id = (py ''u1'')\<rparr> 10 = Inl TypeError \<and>
   check_group_access (default_config\<lparr>rate_limit_window_seconds := CStr (py ''3600'')\<rparr>)
     \<lparr>rate_limit_bucket = [(py ''g1'') \<mapsto> (0, 5)], processing_tasks = Map.empty\<rparr>
     \<lparr>get_group_id = Inr (Some (py ''g1'')), get_sender_id = (py ''u1'')\<rparr> 10 =
     (None, \<lparr>rate_limit_bucket = [(py ''g1'') \<mapsto> (0, 5)], processing_tasks = Map.empty\<rparr>) \<and>
   check_group_access default_config
     \<lparr>rate_limit_bucket = [(py ''g1'') \<mapsto> (0, 5)], processing_tasks = Map.empty\<rparr>
     \<lparr>get_group_id = Inr (Some (py ''g1'')), get_sender_id = (py ''u1'')\<rparr> 10 =
     (Some (RateLimited (CInt 5) (CInt 3600)),
      \<lparr>rate_limit_bucket = [(py ''g1'') \<mapsto> (0, 5)], processing_tasks = Map.empty\<rparr>)"
proof (intro conjI)
  let ?cfg = "default_config\<lparr>rate_limit_window_seconds := CStr (py ''3600'')\<rparr>"
  let ?st = "\<lparr>rate_limit_bucket = [(py ''g1'') \<mapsto> (0 :: real, 5 :: int)],
              processing_tasks = Map.empty\<rparr>"
  let ?ev = "\<lparr>get_group_id = Inr (Some (py ''g1'')), get_sender_id = (py ''u1'')\<rparr>"
  have pre: "get_group_id ?ev = Inr (Some (py ''g1'')) \<and> py ''g1'' \<noteq> [] \<and>
    \<not> (group_control_mode ?cfg = py ''whitelist'' \<and> (py ''g1'') \<notin> set (group_list ?cfg)) \<and>
    \<not> (group_control_mode ?cfg = py ''blacklist'' \<and> py ''g1'' \<in> set (group_list ?cfg)) \<and>
    rate_limit_enabled ?cfg \<and>
    (rate_limit_window_seconds ?cfg = CNone \<or> (\<exists>s. rate_limit_window_seconds ?cfg = CStr s))"
    by (simp add: default_config_def)
  note t = check_group_access_fails_open [of ?cfg ?st ?ev 10 TypeError "py ''g1''"]
  from t [THEN conjunct2, THEN conjunct2, THEN conjunct2, THEN mp, OF pre]
  show body: "check_group_access_body ?cfg ?st ?ev 10 = Inl TypeError" by (rule conjunct1)
  from t [THEN conjunct1, THEN mp, OF body]
  show "check_group_access ?cfg ?st ?ev 10 = (None, ?st)" .
  show "check_group_access default_config ?st ?ev 10 =
     (Some (RateLimited (CInt 5) (CInt 3600)), ?st)"
    by (simp add: check_group_access_def check_group_access_body_def rate_limit_check_def
        ge_cfg_def default_config_def)
qed

section \<open>Only the first image reaches the upstream API\<close>

lemma attempts_sent_payload: "set (snd (attempts cfg post payload ks)) \<subseteq> {payload}"
proof (induction ks)
  case Nil
  show ?case by simp
next
  case (Cons k ks)
  then show ?case
    by (cases "post payload k") (auto split: prod.splits option.splits)
qed

lemma call_grok_api_sent:
  "set (snd (call_grok_api cfg post prompt image_base64)) \<subseteq>
     {request_payload cfg prompt image_base64}"
  unfolding call_grok_api_def using attempts_sent_payload by simp

lemma call_grok_api_posts:
  assumes "api_key cfg \<noteq> []" "0 < max_retry_attempts cfg"
  shows "snd (call_grok_api cfg post prompt image_base64) \<noteq> []"
proof -
  from assms(2) obtain n where n: "nat (max_retry_attempts cfg) = Suc n"
    by (cases "nat (max_retry_attempts cfg)") auto
  have "[0 ..< nat (max_retry_attempts cfg)] = 0 # [1 ..< Suc n]"
    unfolding n by (simp add: upt_rec)
  then show ?thesis
    unfolding call_grok_api_def using assms(1) attempts_nonempty_sent by simp
qed

text \<open>
  Claim C10. The core of the edit gives the same result, and posts the same requests, for
  a list of images as for the list of its first image alone, whether the images were
  handed over by the caller or come from the resolver. Every request it posts is the
  payload built from the prompt and the first image: the payload holds the first image
  as the \<open>url\<close> of its \<open>image_url\<close> part, and two payloads are equal only when their images
  are. With the plugin enabled, an API key, at least one attempt allowed and no resolver
  error, a request is posted.
\<close>

theorem only_first_image_sent:
  "generate_image_edit_core cfg env resolved prompt (Some (x # xs)) err =
     generate_image_edit_core cfg env resolved prompt (Some [x]) err \<and>
   generate_image_edit_core cfg env (x # xs, e) prompt None err =
     generate_image_edit_core cfg env ([x], e) prompt None err \<and>
   set (snd (generate_image_edit_core cfg env (x # xs, e) prompt None err)) \<subseteq>
     {request_payload cfg prompt x} \<and>
   set (snd (generate_image_edit_core cfg env resolved prompt (Some (x # xs)) err)) \<subseteq>
     {request_payload cfg prompt x} \<and>
   request_payload cfg prompt x =
     JObj [(py ''model'', JStr (model_id cfg)),
           (py ''messages'', JArr [JObj
              [(py ''role'', JStr (py ''user'')),
               (py ''content'', JArr
                  [JObj [(py ''type'', JStr (py ''text'')),
                         (py ''text'', JStr (final_prompt cfg prompt))],
                   JObj [(py ''type'', JStr (py ''image_url'')),
                         (py ''image_url'', JObj [(py ''url'', JStr x)])]])]])] \<and>
   (request_payload cfg prompt x = request_payload cfg prompt y \<longleftrightarrow> x = y) \<and>
   (enabled cfg \<and> \<not> truthy err \<and> \<not> truthy e \<and> api_key cfg \<noteq> [] \<and>
    0 < max_retry_attempts cfg \<longrightarrow>
      snd (generate_image_edit_core cfg env (x # xs, e) prompt None err) \<noteq> [] \<and>
      snd (generate_image_edit_core cfg env resolved prompt (Some (x # xs)) err) \<noteq> [])"
proof (intro conjI impI)
  show "generate_image_edit_core cfg env resolved prompt (Some (x # xs)) err =
     generate_image_edit_core cfg env resolved prompt (Some [x]) err"
    by (simp add: generate_image_edit_core_def)
  show "generate_image_edit_core cfg env (x # xs, e) prompt None err =
     generate_image_edit_core cfg env ([x], e) prompt None err"
    by (simp add: generate_image_edit_core_def)
  obtain a b c sent where cg: "call_grok_api cfg (upstream_api env) prompt x = ((a, b, c), sent)"
    by (cases "call_grok_api cfg (upstream_api env) prompt x") auto
  have s: "set sent \<subseteq> {request_payload cfg prompt x}"
    using call_grok_api_sent [of cfg "upstream_api env" prompt x] unfolding cg by simp
  show "set (snd (generate_image_edit_core cfg env (x # xs, e) prompt None err)) \<subseteq>
     {request_payload cfg prompt x}"
    using s unfolding generate_image_edit_core_def
    by (simp add: cg split: option.splits)
  show "set (snd (generate_image_edit_core cfg env resolved prompt (Some (x # xs)) err)) \<subseteq>
     {request_payload cfg prompt x}"
    using s unfolding generate_image_edit_core_def
    by (simp add: cg split: option.splits)
  show "request_payload cfg prompt x =
     JObj [(py ''model'', JStr (model_id cfg)),
           (py ''messages'', JArr [JObj
              [(py ''role'', JStr (py ''user'')),
               (py ''content'', JArr
                  [JObj [(py ''type'', JStr (py ''text'')),
                         (py ''text'', JStr (final_prompt cfg prompt))],
                   JObj [(py ''type'', JStr (py ''image_url'')),
                         (py ''image_url'', JObj [(py ''url'', JStr x)])]])]])]"
    by (simp add: request_payload_def)
  show "request_payload cfg prompt x = request_payload cfg prompt y \<longleftrightarrow> x = y"
    by (simp add: request_payload_def)
  assume a: "enabled cfg \<and> \<not> truthy err \<and> \<not> truthy e \<and> api_key cfg \<noteq> [] \<and>
    0 < max_retry_attempts cfg"
  then have p: "sent \<noteq> []"
    using call_grok_api_posts [of cfg "upstream_api env" prompt x] unfolding cg by simp
  show "snd (generate_image_edit_core cfg env (x # xs, e) prompt None err) \<noteq> []"
    using a p unfolding generate_image_edit_core_def
    by (simp add: cg split: option.splits)
  show "snd (generate_image_edit_core cfg env resolved prompt (Some (x # xs)) err) \<noteq> []"
    using a p unfolding generate_image_edit_core_def
    by (simp add: cg split: option.splits)
qed

theorem only_first_image_sent_witness:
  "snd (generate_image_edit_core (default_config\<lparr>api_key := py ''k''\<rparr>)
          \<lparr>upstream_api = (\<lambda>payload attempt. Response 403 None),
           save_base64_image = (\<lambda>d. None), prepare_image_path = (\<lambda>p. p),
           send = (\<lambda>m. None)\<rparr>
          ([py ''a'', py ''b''], None) (py ''p'') None None) =
     [JObj [(py ''model'', JStr (py ''grok-imagine-0.9'')),
            (py ''messages'', JArr [JObj
               [(py ''role'', JStr (py ''user'')),
                (py ''content'', JArr
                   [JObj [(py ''type'', JStr (py ''text'')), (py ''text'', JStr (py ''p''))],
                    JObj [(py ''type'', JStr (py ''image_url'')),
                          (py ''image_url'', JObj [(py ''url'', JStr (py ''a''))])]])]])]] \<and>
   snd (generate_image_edit_core (default_config\<lparr>api_key := py ''k''\<rparr>)
          \<lparr>upstream_api = (\<lambda>payload attempt. Response 403 None),
           save_base64_image = (\<lambda>d. None), prepare_image_path = (\<lambda>p. p),
           send = (\<lambda>m. None)\<rparr>
          ([], None) (py ''p'') (Some [py ''a'', py ''b'']) None) \<noteq> []"
proof (intro conjI)
  let ?cfg = "default_config\<lparr>api_key := py ''k''\<rparr>"
  let ?env = "\<lparr>upstream_api = (\<lambda>payload attempt. Response 403 None),
           save_base64_image = (\<lambda>d. None), prepare_image_path = (\<lambda>p. p),
           send = (\<lambda>m. None)\<rparr>"
  have pre: "enabled ?cfg \<and> \<not> truthy None \<and> \<not> truthy None \<and> api_key ?cfg \<noteq> [] \<and>
    0 < max_retry_attempts ?cfg"
    by (simp add: default_config_def truthy_def)
  note t = only_first_image_sent [of ?cfg ?env "([], None)" "py ''p''" "py ''a''" "[py ''b'']"
      None None]
  note posted = t [THEN conjunct2, THEN conjunct2, THEN conjunct2, THEN conjunct2,
      THEN conjunct2, THEN conjunct2, THEN mp, OF pre]
  from posted show "snd (generate_image_edit_core ?cfg ?env ([], None) (py ''p'')
      (Some [py ''a'', py ''b'']) None) \<noteq> []"
    by (rule conjunct2)
  have up: "[0 ..< nat (max_retry_attempts ?cfg)] = 0 # [Suc 0 ..< 3]"
    by (simp add: default_config_def upt_conv_Cons)
  have one: "snd (generate_image_edit_core ?cfg ?env ([py ''a'', py ''b''], None) (py ''p'')
      None None) = [request_payload ?cfg (py ''p'') (py ''a'')]"
    unfolding generate_image_edit_core_def call_grok_api_def up
    by (simp add: truthy_def default_config_def)
  have fp: "final_prompt ?cfg (py ''p'') = py ''p''"
    by (simp add: final_prompt_def strip_def is_space_def default_config_def)
  have mi: "model_id ?cfg = py ''grok-imagine-0.9''" by (simp add: default_config_def)
  show "snd (generate_image_edit_core ?cfg ?env ([py ''a'', py ''b''], None) (py ''p'')
      None None) =
     [JObj [(py ''model'', JStr (py ''grok-imagine-0.9'')),
            (py ''messages'', JArr [JObj
               [(py ''role'', JStr (py ''user'')),
                (py ''content'', JArr
                   [JObj [(py ''type'', JStr (py ''text'')), (py ''text'', JStr (py ''p''))],
                    JObj [(py ''type'', JStr (py ''image_url'')),
                          (py ''image_url'', JObj [(py ''url'', JStr (py ''a''))])]])]])]]"
    unfolding one t [THEN conjunct2, THEN conjunct2, THEN conjunct2, THEN conjunct2,
      THEN conjunct1] fp mi ..
qed

section \<open>The delivered components\<close>

subsection \<open>Every URL of an edit result is a valid URL\<close>

lemma valid_url_scheme:
  "is_valid_image_url u b \<Longrightarrow> startswith u (py ''http://'') \<or> startswith u (py ''https://'')"
  unfolding is_valid_image_url_def by (simp split: if_splits)

lemma valid_url_any_extension: "is_valid_image_url u True \<Longrightarrow> is_valid_image_url u False"
  unfolding is_valid_image_url_def by (simp split: if_splits)

lemma data_items_valid:
  assumes "\<forall>u \<in> set us. is_valid_image_url u False"
  shows "\<forall>u \<in> set (fst (data_items items (us, ds))). is_valid_image_url u False"
  using assms data_items_sets [of items us ds] by auto

lemma content_parts_valid:
  "\<forall>u \<in> set us. is_valid_image_url u False \<Longrightarrow>
   \<forall>u \<in> set (fst (content_parts parts (us, ts))). is_valid_image_url u False"
proof (induction parts arbitrary: us ts)
  case Nil
  then show ?case by simp
next
  case (Cons part parts)
  show ?case
  proof (cases part)
    case (JObj d)
    let ?us = "if dict_get d (py ''type'') = JStr (py ''image_url'') then
                (case part_image_url d of
                   JStr image_url \<Rightarrow>
                     if is_valid_image_url image_url False then us @ [image_url]
                     else us
                 | _ \<Rightarrow> us)
              else us"
    let ?ts = "if dict_get d (py ''type'') = JStr (py ''text'') then
                (case dict_get d (py ''text'') of JStr t \<Rightarrow> ts @ [t] | _ \<Rightarrow> ts)
              else ts"
    have step: "content_parts (part # parts) (us, ts) = content_parts parts (?us, ?ts)"
      using JObj by simp
    have "\<forall>u \<in> set ?us. is_valid_image_url u False"
      using Cons.prems by (cases "part_image_url d") auto
    then show ?thesis unfolding step by (rule Cons.IH)
  qed (use Cons.IH [of us ts] Cons.prems in auto)
qed

lemma attachment_items_valid:
  "\<forall>u \<in> set us. is_valid_image_url u False \<Longrightarrow>
   \<forall>u \<in> set (attachment_items items us). is_valid_image_url u False"
proof (induction items arbitrary: us)
  case Nil
  then show ?case by simp
next
  case (Cons item items)
  show ?case
  proof (cases item)
    case (JObj d)
    show ?thesis
    proof (cases "\<exists>url. dict_get d (py ''url'') = JStr url \<and> is_valid_image_url url False")
      case True
      then obtain url where url: "dict_get d (py ''url'') = JStr url" "is_valid_image_url url False"
        by blast
      have "\<forall>u \<in> set (us @ [url]). is_valid_image_url u False"
        using Cons.prems url(2) by simp
      from Cons.IH [OF this] show ?thesis using JObj url by simp
    next
      case False
      then have "attachment_items (item # items) us = attachment_items items us"
        using JObj by (cases "dict_get d (py ''url'')") auto
      then show ?thesis using Cons.IH [OF Cons.prems] by simp
    qed
  qed (use Cons.IH [OF Cons.prems] in auto)
qed

lemma attachment_fields_valid:
  "\<forall>u \<in> set us. is_valid_image_url u False \<Longrightarrow>
   \<forall>u \<in> set (attachment_fields message fs us). is_valid_image_url u False"
proof (induction fs arbitrary: us)
  case Nil
  then show ?case by simp
next
  case (Cons field fs)
  let ?us = "case dict_get message field of
          JArr items \<Rightarrow> attachment_items items us
        | _ \<Rightarrow> us"
  have "\<forall>u \<in> set ?us. is_valid_image_url u False"
    using attachment_items_valid [OF Cons.prems] Cons.prems
    by (cases "dict_get message field") auto
  from Cons.IH [OF this] show ?case by simp
qed

lemma text_urls_valid:
  "\<forall>u \<in> set (extract_image_urls_from_text content). is_valid_image_url u False"
  by (auto simp: extract_image_urls_from_text_def dest: valid_url_any_extension)

lemma message_results_valid:
  assumes "message_results choice (us, ds) = Inr (cu, cd)"
    and us: "\<forall>u \<in> set us. is_valid_image_url u False"
  shows "\<forall>u \<in> set cu. is_valid_image_url u False"
proof -
  from assms(1) obtain message where
    m: "(case map_of choice (py ''message'') of None \<Rightarrow> JObj [] | Some m \<Rightarrow> m) = JObj message"
    unfolding message_results_def by (auto split: json.splits)
  let ?mid = "case dict_get message (py ''content'') of
                JArr content \<Rightarrow>
                  (case content_parts content (us, []) of
                     (image_urls, text_parts) \<Rightarrow>
                       if text_parts \<noteq> [] then
                         (image_urls @ extract_image_urls_from_text (join_lines text_parts),
                          ds @ extract_data_urls_from_text (join_lines text_parts))
                       else (image_urls, ds))
              | JStr content \<Rightarrow>
                  (us @ extract_image_urls_from_text content,
                   ds @ extract_data_urls_from_text content)
              | _ \<Rightarrow> (us, ds)"
  have res: "cu = attachment_fields message
                      [py ''attachments'', py ''media'', py ''files'', py ''images''] (fst ?mid)"
  proof -
    have "message_results choice (us, ds) =
        Inr (attachment_fields message [py ''attachments'', py ''media'', py ''files'', py ''images'']
               (fst ?mid), snd ?mid)"
      unfolding message_results_def m
      by (simp only: json.case fst_conv snd_conv case_prod_beta)
    with assms(1) show ?thesis by (simp del: attachment_fields.simps)
  qed
  have "\<forall>u \<in> set (fst ?mid). is_valid_image_url u False"
  proof (cases "dict_get message (py ''content'')")
    case (JArr content)
    obtain iu tp where c: "content_parts content (us, []) = (iu, tp)"
      by (cases "content_parts content (us, [])")
    from content_parts_valid [OF us, of content "[]"] c
    have "\<forall>u \<in> set iu. is_valid_image_url u False" by simp
    then show ?thesis using JArr c text_urls_valid by auto
  next
    case (JStr content)
    then show ?thesis using us text_urls_valid by auto
  qed (use us in auto)
  then show ?thesis unfolding res by (rule attachment_fields_valid)
qed

lemma collect_valid:
  assumes "collect_image_results rd = Inr (cu, cd)"
  shows "\<forall>u \<in> set cu. is_valid_image_url u False"
proof -
  define D where "D = (case dict_get rd (py ''data'') of
      JArr data_field \<Rightarrow> data_items data_field ([], []) | _ \<Rightarrow> ([], []))"
  have d: "\<forall>u \<in> set (fst D). is_valid_image_url u False"
    unfolding D_def using data_items_valid [of "[]" _ "[]"]
    by (cases "dict_get rd (py ''data'')") auto
  show ?thesis
  proof (cases "\<exists>choice. first_choice rd = JObj choice")
    case True
    then obtain choice where c: "first_choice rd = JObj choice" by blast
    have "message_results choice (fst D, snd D) = Inr (cu, cd)"
      using assms unfolding collect_image_results_def c D_def by simp
    from message_results_valid [OF this d] show ?thesis .
  next
    case False
    then have "collect_image_results rd = Inr D"
      unfolding collect_image_results_def D_def by (cases "first_choice rd") auto
    with assms have "cu = fst D" by simp
    with d show ?thesis by simp
  qed
qed

lemma extract_urls_valid:
  "\<forall>u \<in> set (fst (extract_image_results r)). is_valid_image_url u False"
proof (cases r)
  case (JObj rd)
  show ?thesis
  proof (cases "collect_image_results rd")
    case (Inl e)
    then show ?thesis unfolding JObj extract_image_results_def by simp
  next
    case (Inr c)
    obtain cu cd where c: "c = (cu, cd)" by (cases c)
    from collect_valid [OF Inr [unfolded c]]
    have "\<forall>u \<in> set (dedupe_preserve cu). is_valid_image_url u False"
      by (simp add: set_dedupe_preserve)
    then show ?thesis by (simp add: JObj extract_image_results_def Inr c)
  qed
qed (simp_all add: extract_image_results_def)

lemma attempts_urls_valid:
  "\<forall>u \<in> set (fst (fst (attempts cfg post payload ks))). is_valid_image_url u False"
proof (induction ks)
  case Nil
  show ?case by simp
next
  case (Cons k ks)
  show ?case
  proof (cases "post payload k")
    case (Response status_code body)
    show ?thesis
    proof (cases body)
      case None
      then show ?thesis using Response Cons.IH by (auto split: prod.splits)
    next
      case (Some result)
      obtain iu du pe where e: "extract_image_results result = (iu, du, pe)"
        by (cases "extract_image_results result") auto
      from extract_urls_valid [of result] have "\<forall>u \<in> set iu. is_valid_image_url u False"
        unfolding e by simp
      then show ?thesis using Response Some e Cons.IH
        by (auto split: prod.splits option.splits)
    qed
  qed (use Cons.IH in \<open>auto split: prod.splits\<close>)
qed

lemma core_urls_valid:
  "\<forall>u \<in> set (fst (fst (generate_image_edit_core cfg env resolved prompt prefetched_images
                           prefetched_error))). is_valid_image_url u False"
proof -
  have c: "\<forall>u \<in> set (fst (fst (call_grok_api cfg post prompt x))). is_valid_image_url u False"
    for post x
    unfolding call_grok_api_def using attempts_urls_valid by simp
  show ?thesis
    unfolding generate_image_edit_core_def
    using c [of "upstream_api env"]
    by (auto split: option.splits prod.splits sum.splits list.splits) (metis fst_conv)+
qed

subsection \<open>The components built from an edit result\<close>

lemma url_components_take:
  assumes "\<forall>u \<in> set (take (nat (m - count)) urls).
             startswith u (py ''http://'') \<or> startswith u (py ''https://'')"
  shows "url_components m urls (components, count) =
     Inr (components @ map FromURL (take (nat (m - count)) urls),
          count + int (min (nat (m - count)) (length urls)))"
  using assms
proof (induction urls arbitrary: components count)
  case Nil
  show ?case by simp
next
  case (Cons u urls)
  show ?case
  proof (cases "count \<ge> m")
    case True
    then show ?thesis by simp
  next
    case False
    then obtain k where k: "nat (m - count) = Suc k" by (cases "nat (m - count)") auto
    then have k': "nat (m - (count + 1)) = k" by linarith
    from Cons.prems have u: "fromURL u = Inr (FromURL u)"
      and rest: "\<forall>u \<in> set (take (nat (m - (count + 1))) urls).
             startswith u (py ''http://'') \<or> startswith u (py ''https://'')"
      unfolding k k' fromURL_def by simp_all
    show ?thesis using False by (simp add: u Cons.IH [OF rest] k k')
  qed
qed

lemma url_components_raises:
  assumes "\<exists>u \<in> set (take (nat (m - count)) urls).
             \<not> (startswith u (py ''http://'') \<or> startswith u (py ''https://''))"
  shows "url_components m urls (components, count) = Inl NotAValidUrl"
  using assms
proof (induction urls arbitrary: components count)
  case Nil
  then show ?case by simp
next
  case (Cons u urls)
  from Cons.prems have lt: "\<not> count \<ge> m" by (cases "count \<ge> m") auto
  then obtain k where k: "nat (m - count) = Suc k" by (cases "nat (m - count)") auto
  then have k': "nat (m - (count + 1)) = k" by linarith
  show ?case
  proof (cases "startswith u (py ''http://'') \<or> startswith u (py ''https://'')")
    case False
    then show ?thesis using lt by (simp add: fromURL_def)
  next
    case True
    with Cons.prems have "\<exists>u \<in> set (take (nat (m - (count + 1))) urls).
             \<not> (startswith u (py ''http://'') \<or> startswith u (py ''https://''))"
      unfolding k k' by auto
    from Cons.IH [OF this] show ?thesis using lt True by (simp add: fromURL_def)
  qed
qed

lemma path_components_take:
  "path_components m prepare paths (components, count) =
     (components @ map (\<lambda>p. FromFileSystem (prepare p)) (take (nat (m - count)) paths),
      count + int (min (nat (m - count)) (length paths)))"
proof (induction paths arbitrary: components count)
  case Nil
  show ?case by simp
next
  case (Cons u paths)
  show ?case
  proof (cases "count \<ge> m")
    case True
    then show ?thesis by simp
  next
    case False
    then obtain k where k: "nat (m - count) = Suc k" by (cases "nat (m - count)") auto
    then have k': "nat (m - (count + 1)) = k" by linarith
    show ?thesis using False by (simp add: Cons.IH k k')
  qed
qed

lemma build_components_take:
  assumes "\<forall>u \<in> set (take (nat (max_images_per_response cfg)) U).
             startswith u (py ''http://'') \<or> startswith u (py ''https://'')"
  shows "build_components cfg prepare U P =
     Inr (take (nat (max_images_per_response cfg))
            (map FromURL U @ map (\<lambda>p. FromFileSystem (prepare p)) P))"
proof -
  have n: "nat (max_images_per_response cfg -
          int (min (nat (max_images_per_response cfg)) (length U))) =
        nat (max_images_per_response cfg) - length U"
    by linarith
  have "url_components (max_images_per_response cfg) U ([], 0) =
      Inr (map FromURL (take (nat (max_images_per_response cfg)) U),
           int (min (nat (max_images_per_response cfg)) (length U)))"
    using url_components_take [of "max_images_per_response cfg" 0 U "[]"] assms by simp
  then show ?thesis
    unfolding build_components_def
    by (simp add: path_components_take take_map n)
qed

lemma build_components_raises:
  assumes "\<exists>u \<in> set (take (nat (max_images_per_response cfg)) U).
             \<not> (startswith u (py ''http://'') \<or> startswith u (py ''https://''))"
  shows "build_components cfg prepare U P = Inl NotAValidUrl"
  unfolding build_components_def
  using url_components_raises [of "max_images_per_response cfg" 0 U "[]"] assms by simp

text \<open>
  Claim C8. Every URL of an edit result starts with \<open>http://\<close> or \<open>https://\<close>, so
  \<open>Image.fromURL\<close> takes it. For URLs \<open>U\<close> of which those within the limit start so, and
  local paths \<open>P\<close>, the components built are the first \<open>max_images_per_response\<close> entries
  of \<open>U\<close> followed by \<open>P\<close>: the URLs in order, then the paths in order, cut at the limit.
  Their number is the minimum of the limit and \<open>|U| + |P|\<close> (none when the limit is
  negative). When no send raises and the result is not empty, they are delivered in one
  chain message, and no other chain message is sent.
\<close>

theorem delivered_components_capped:
  "(\<forall>u \<in> set (fst (fst (generate_image_edit_core cfg env resolved prompt prefetched_images
                            prefetched_error))).
      startswith u (py ''http://'') \<or> startswith u (py ''https://'')) \<and>
   ((\<forall>u \<in> set (take (nat (max_images_per_response cfg)) U).
       startswith u (py ''http://'') \<or> startswith u (py ''https://'')) \<longrightarrow>
      build_components cfg prepare U P =
        Inr (take (nat (max_images_per_response cfg))
               (map FromURL U @ map (\<lambda>p. FromFileSystem (prepare p)) P)) \<and>
      int (length (take (nat (max_images_per_response cfg))
                     (map FromURL U @ map (\<lambda>p. FromFileSystem (prepare p)) P))) =
        max 0 (min (max_images_per_response cfg) (int (length U) + int (length P))) \<and>
      (0 \<le> max_images_per_response cfg \<longrightarrow>
         int (length (take (nat (max_images_per_response cfg))
                        (map FromURL U @ map (\<lambda>p. FromFileSystem (prepare p)) P))) =
           min (max_images_per_response cfg) (int (length U) + int (length P))) \<and>
      ((\<forall>m. send env m = None) \<and> (U \<noteq> [] \<or> P \<noteq> []) \<longrightarrow>
         fst (edit_body cfg env (U, P, None)) =
           (if status_message_mode cfg = py ''verbose'' then [Plain SendingImages] else []) @
           (if take (nat (max_images_per_response cfg))
                 (map FromURL U @ map (\<lambda>p. FromFileSystem (prepare_image_path env p)) P) = []
            then []
            else Chain (take (nat (max_images_per_response cfg))
                          (map FromURL U @
                           map (\<lambda>p. FromFileSystem (prepare_image_path env p)) P)) #
                 (if status_message_mode cfg = py ''verbose'' then [Plain SendSucceeded]
                  else []))))"
proof (intro conjI impI)
  show "\<forall>u \<in> set (fst (fst (generate_image_edit_core cfg env resolved prompt prefetched_images
                            prefetched_error))).
      startswith u (py ''http://'') \<or> startswith u (py ''https://'')"
    using core_urls_valid valid_url_scheme by blast
  assume v: "\<forall>u \<in> set (take (nat (max_images_per_response cfg)) U).
       startswith u (py ''http://'') \<or> startswith u (py ''https://'')"
  show "build_components cfg prepare U P =
        Inr (take (nat (max_images_per_response cfg))
               (map FromURL U @ map (\<lambda>p. FromFileSystem (prepare p)) P))"
    using v by (rule build_components_take)
  show l: "int (length (take (nat (max_images_per_response cfg))
                     (map FromURL U @ map (\<lambda>p. FromFileSystem (prepare p)) P))) =
        max 0 (min (max_images_per_response cfg) (int (length U) + int (length P)))"
    by simp
  show "int (length (take (nat (max_images_per_response cfg))
                        (map FromURL U @ map (\<lambda>p. FromFileSystem (prepare p)) P))) =
           min (max_images_per_response cfg) (int (length U) + int (length P))"
    if "0 \<le> max_images_per_response cfg"
    using l that by simp
  assume a: "(\<forall>m. send env m = None) \<and> (U \<noteq> [] \<or> P \<noteq> [])"
  then have ne: "\<not> (U = [] \<and> P = [])" by simp
  define B where "B = take (nat (max_images_per_response cfg))
    (map FromURL U @ map (\<lambda>p. FromFileSystem (prepare_image_path env p)) P)"
  have b: "build_components cfg (prepare_image_path env) U P = Inr B"
    unfolding B_def using v by (rule build_components_take)
  have s: "send env m = None" for m using a by simp
  have d: "deliver cfg env C =
      ((if C = [] then []
        else Chain C # (if status_message_mode cfg = py ''verbose'' then [Plain SendSucceeded] else [])),
       None)" for C
    unfolding deliver_def and_then_def when_verbose_def send_msg_def by (simp add: s)
  have "fst (edit_body cfg env (U, P, None)) =
        (if status_message_mode cfg = py ''verbose'' then [Plain SendingImages] else []) @
        (if B = [] then []
         else Chain B # (if status_message_mode cfg = py ''verbose'' then [Plain SendSucceeded] else []))"
    unfolding edit_body_def using ne
    by (simp add: b d and_then_def when_verbose_def send_msg_def s)
  then show "fst (edit_body cfg env (U, P, None)) =
           (if status_message_mode cfg = py ''verbose'' then [Plain SendingImages] else []) @
           (if take (nat (max_images_per_response cfg))
                 (map FromURL U @ map (\<lambda>p. FromFileSystem (prepare_image_path env p)) P) = []
            then []
            else Chain (take (nat (max_images_per_response cfg))
                          (map FromURL U @
                           map (\<lambda>p. FromFileSystem (prepare_image_path env p)) P)) #
                 (if status_message_mode cfg = py ''verbose'' then [Plain SendSucceeded]
                  else []))"
    unfolding B_def .
qed

theorem delivered_components_capped_witness:
  "fst (generate_image_edit_core
          (default_config\<lparr>api_key := py ''k'', max_images_per_response := 2\<rparr>)
          \<lparr>upstream_api = (\<lambda>payload attempt. Response 200 (Some (JObj
              [(py ''data'', JArr [JObj [(py ''url'', JStr (py ''http://h/a.png''))]])]))),
           save_base64_image = (\<lambda>d. None), prepare_image_path = (\<lambda>p. p),
           send = (\<lambda>m. None)\<rparr>
          ([py ''img''], None) (py ''p'') None None) =
     ([py ''http://h/a.png''], [], None) \<and>
   build_components (default_config\<lparr>api_key := py ''k'', max_images_per_response := 2\<rparr>)
     (\<lambda>p. p) [py ''http://h/a.png''] [py ''/t/1.png'', py ''/t/2.png''] =
     Inr [FromURL (py ''http://h/a.png''), FromFileSystem (py ''/t/1.png'')] \<and>
   fst (edit_body (default_config\<lparr>api_key := py ''k'', max_images_per_response := 2\<rparr>)
          \<lparr>upstream_api = (\<lambda>payload attempt. Response 200 (Some (JObj
              [(py ''data'', JArr [JObj [(py ''url'', JStr (py ''http://h/a.png''))]])]))),
           save_base64_image = (\<lambda>d. None), prepare_image_path = (\<lambda>p. p),
           send = (\<lambda>m. None)\<rparr>
          ([py ''http://h/a.png''], [py ''/t/1.png'', py ''/t/2.png''], None)) =
     [Chain [FromURL (py ''http://h/a.png''), FromFileSystem (py ''/t/1.png'')]]"
proof (intro conjI)
  let ?cfg = "default_config\<lparr>api_key := py ''k'', max_images_per_response := 2\<rparr>"
  let ?env = "\<lparr>upstream_api = (\<lambda>payload attempt. Response 200 (Some (JObj
              [(py ''data'', JArr [JObj [(py ''url'', JStr (py ''http://h/a.png''))]])]))),
           save_base64_image = (\<lambda>d. None), prepare_image_path = (\<lambda>p. p),
           send = (\<lambda>m. None)\<rparr>"
  let ?U = "[py ''http://h/a.png'']"
  let ?P = "[py ''/t/1.png'', py ''/t/2.png'']"
  have up: "[0 ..< nat (max_retry_attempts ?cfg)] = 0 # [Suc 0 ..< 3]"
    by (simp add: default_config_def upt_conv_Cons)
  have ex: "extract_image_results (JObj
      [(py ''data'', JArr [JObj [(py ''url'', JStr (py ''http://h/a.png''))]])]) =
      (?U, [], None)"
    by (simp add: extract_image_results_def collect_image_results_def first_choice_def
        dict_get_def is_valid_image_url_def startswith_def invalid_chars_def dedupe_preserve_def)
  show "fst (generate_image_edit_core ?cfg ?env ([py ''img''], None) (py ''p'') None None) =
     (?U, [], None)"
    unfolding generate_image_edit_core_def call_grok_api_def up
    by (simp add: ex [simplified] truthy_def default_config_def saved_paths_def)
  note t = delivered_components_capped [of ?cfg ?env "([py ''img''], None)" "py ''p''" None None
      ?U "\<lambda>p. p" ?P]
  have v: "\<forall>u \<in> set (take (nat (max_images_per_response ?cfg)) ?U).
       startswith u (py ''http://'') \<or> startswith u (py ''https://'')"
    by (simp add: startswith_def)
  note r = t [THEN conjunct2, THEN mp, OF v]
  from r [THEN conjunct1]
  show "build_components ?cfg (\<lambda>p. p) ?U ?P =
     Inr [FromURL (py ''http://h/a.png''), FromFileSystem (py ''/t/1.png'')]"
    by (simp add: eval_nat_numeral)
  have pre: "(\<forall>m. send ?env m = None) \<and> (?U \<noteq> [] \<or> ?P \<noteq> [])" by simp
  have sm: "status_message_mode ?cfg \<noteq> py ''verbose''" by (simp add: default_config_def)
  from r [THEN conjunct2, THEN conjunct2, THEN conjunct2, THEN mp, OF pre]
  show "fst (edit_body ?cfg ?env (?U, ?P, None)) =
     [Chain [FromURL (py ''http://h/a.png''), FromFileSystem (py ''/t/1.png'')]]"
    using sm by (simp add: eval_nat_numeral)
qed

section \<open>The token of a user\<close>

lemma check_group_access_tasks:
  "processing_tasks (snd (check_group_access cfg st event now)) = processing_tasks st"
  unfolding check_group_access_def check_group_access_body_def rate_limit_check_def
  by (simp split: sum.splits option.splits prod.splits if_splits)

lemma busy_rejected:
  assumes "get_sender_id event \<in> dom (processing_tasks st)"
  shows "\<exists>r st'. cmd_edit_image_check cfg st event now = (r, st', False) \<and>
           processing_tasks st' = processing_tasks st \<and>
           (r = [Plain Busy] \<or> (\<exists>d. r = [Plain (Denied d)]))"
proof -
  obtain d st' where c: "check_group_access cfg st event now = (d, st')"
    by (cases "check_group_access cfg st event now") auto
  have p: "processing_tasks st' = processing_tasks st"
    using check_group_access_tasks [of cfg st event now] unfolding c by simp
  show ?thesis
    unfolding cmd_edit_image_check_def c using assms p by (cases d) simp_all
qed

lemma token_removed_on_exit:
  assumes "processing_tasks st user = Some tid"
  shows "processing_tasks
           (snd (async_edit_image cfg env st user prompt tid prefetched_images
                   prefetched_error resolved)) =
         (processing_tasks st)(user := None)"
  using assms by (simp add: async_edit_image_def)

subsection \<open>Runs without overlapping handlers\<close>

lemma filter_without_other:
  assumes "i < length xs" "\<not> P (xs ! i)"
  shows "filter P (take i xs @ drop (Suc i) xs) = filter P xs"
proof -
  have "filter P xs = filter P (take i xs @ xs ! i # drop (Suc i) xs)"
    using assms(1) by (simp add: id_take_nth_drop [symmetric])
  then show ?thesis using assms(2) by simp
qed

lemma filter_without_own:
  assumes "i < length xs" "P (xs ! i)"
  shows "Suc (length (filter P (take i xs @ drop (Suc i) xs))) = length (filter P xs)"
proof -
  have "filter P xs = filter P (take i xs @ xs ! i # drop (Suc i) xs)"
    using assms(1) by (simp add: id_take_nth_drop [symmetric])
  then show ?thesis using assms(2) by simp
qed

lemma guarded_initial: "guarded initial_world"
  by (simp add: guarded_def initial_world_def handlers_of_def tasks_of_def)

lemma guarded_Command:
  assumes g: "guarded w" and q: "handlers_of w (get_sender_id event) = []"
  shows "guarded (occur cfg env w (Command event prompt now))"
proof -
  obtain d st' where c: "check_group_access cfg (plugin w) event now = (d, st')"
    by (cases "check_group_access cfg (plugin w) event now") auto
  have p: "processing_tasks st' = processing_tasks (plugin w)"
    using check_group_access_tasks [of cfg "plugin w" event now] unfolding c by simp
  show ?thesis
  proof (cases "d = None \<and> get_sender_id event \<notin> dom (processing_tasks st')")
    case False
    then have "occur cfg env w (Command event prompt now) =
        w\<lparr>plugin := st', replies := replies w @
          (case d of Some e \<Rightarrow> [Plain (Denied e)] | None \<Rightarrow> [Plain Busy])\<rparr>"
      by (cases d) (auto simp: occur_def cmd_edit_image_check_def c)
    then show ?thesis
      using g by (simp add: guarded_def handlers_of_def tasks_of_def p)
  next
    case True
    let ?h = "\<lparr>handler_event = event, handler_prompt = prompt\<rparr>"
    from True have o: "occur cfg env w (Command event prompt now) =
        w\<lparr>plugin := st', resolving := resolving w @ [?h], replies := replies w\<rparr>"
      by (auto simp: occur_def cmd_edit_image_check_def c)
    from True have tok: "processing_tasks (plugin w) (get_sender_id event) = None"
      using p by (auto simp: dom_def)
    have none: "tasks_of w (get_sender_id event) = []"
    proof (rule ccontr)
      assume "tasks_of w (get_sender_id event) \<noteq> []"
      then obtain t where "t \<in> set (tasks_of w (get_sender_id event))"
        by (cases "tasks_of w (get_sender_id event)") auto
      with g have "processing_tasks (plugin w) (get_sender_id event) = Some (task_id t)"
        unfolding guarded_def by blast
      with tok show False by simp
    qed
    show ?thesis
      unfolding guarded_def
    proof (intro allI conjI)
      fix u
      show "length (handlers_of (occur cfg env w (Command event prompt now)) u) +
          length (tasks_of (occur cfg env w (Command event prompt now)) u) \<le> 1"
      proof (cases "u = get_sender_id event")
        case True
        then show ?thesis using q none by (simp add: o handlers_of_def tasks_of_def)
      next
        case False
        from g have "length (handlers_of w u) + length (tasks_of w u) \<le> 1"
          unfolding guarded_def by blast
        then show ?thesis using False by (simp add: o handlers_of_def tasks_of_def)
      qed
      show "\<forall>t \<in> set (tasks_of (occur cfg env w (Command event prompt now)) u).
          processing_tasks (plugin (occur cfg env w (Command event prompt now))) u =
            Some (task_id t)"
        using g unfolding guarded_def by (simp add: o tasks_of_def p)
      show "processing_tasks (plugin (occur cfg env w (Command event prompt now))) u \<noteq> None \<longrightarrow>
          tasks_of (occur cfg env w (Command event prompt now)) u \<noteq> []"
        using g unfolding guarded_def by (simp add: o tasks_of_def p)
    qed
  qed
qed

lemma guarded_Resolved:
  assumes g: "guarded w"
  shows "guarded (occur cfg env w (Resolved i resolved new_id))"
proof (cases "i < length (resolving w)")
  case False
  then show ?thesis using g by (simp add: occur_def)
next
  case True
  define h where "h = resolving w ! i"
  define user where "user = get_sender_id (handler_event h)"
  define rest where "rest = take i (resolving w) @ drop (Suc i) (resolving w)"
  have own: "Suc (length (filter (\<lambda>h. get_sender_id (handler_event h) = user) rest)) =
      length (handlers_of w user)"
    unfolding rest_def handlers_of_def
    by (rule filter_without_own [OF True]) (simp add: user_def h_def)
  have other: "filter (\<lambda>h. get_sender_id (handler_event h) = u) rest = handlers_of w u"
    if "u \<noteq> user" for u
    unfolding rest_def handlers_of_def
    by (rule filter_without_other [OF True]) (use that in \<open>simp add: user_def h_def\<close>)
  have le: "length (filter (\<lambda>h. get_sender_id (handler_event h) = u) rest) \<le>
      length (handlers_of w u)" for u
    using own other [of u] by (cases "u = user") auto
  from g have a: "length (handlers_of w u) + length (tasks_of w u) \<le> 1"
    and b: "\<forall>t \<in> set (tasks_of w u). processing_tasks (plugin w) u = Some (task_id t)"
    and c: "processing_tasks (plugin w) u \<noteq> None \<longrightarrow> tasks_of w u \<noteq> []" for u
    unfolding guarded_def by blast+
  from own a [of user]
  have "length (tasks_of w user) = 0 \<and>
      length (filter (\<lambda>h. get_sender_id (handler_event h) = user) rest) = 0"
    by linarith
  then have none: "tasks_of w user = []"
    and last: "filter (\<lambda>h. get_sender_id (handler_event h) = user) rest = []"
    by (simp_all only: length_0_conv)
  obtain images extract_error where r: "resolved = (images, extract_error)"
    by (cases resolved) auto
  show ?thesis
  proof (cases "truthy extract_error \<or> images = []")
    case True
    define y where "y = fst (cmd_edit_image_resume cfg (plugin w) (handler_event h) resolved
      (handler_prompt h) new_id)"
    from True have o: "occur cfg env w (Resolved i resolved new_id) =
        w\<lparr>resolving := rest, replies := replies w @ y\<rparr>"
      using \<open>i < length (resolving w)\<close>
      by (auto simp: occur_def cmd_edit_image_resume_def r rest_def y_def h_def)
    show ?thesis
      unfolding guarded_def
    proof (intro allI conjI)
      fix u
      show "length (handlers_of (occur cfg env w (Resolved i resolved new_id)) u) +
          length (tasks_of (occur cfg env w (Resolved i resolved new_id)) u) \<le> 1"
        using a [of u] le [of u] by (simp add: o handlers_of_def tasks_of_def)
      show "\<forall>t \<in> set (tasks_of (occur cfg env w (Resolved i resolved new_id)) u).
          processing_tasks (plugin (occur cfg env w (Resolved i resolved new_id))) u =
            Some (task_id t)"
        using b [of u] by (simp add: o tasks_of_def)
      show "processing_tasks (plugin (occur cfg env w (Resolved i resolved new_id))) u \<noteq> None \<longrightarrow>
          tasks_of (occur cfg env w (Resolved i resolved new_id)) u \<noteq> []"
        using c [of u] by (simp add: o tasks_of_def)
    qed
  next
    case False
    define t where "t = \<lparr>task_user = user, task_prompt = handler_prompt h,
      task_id = new_id, task_images = images\<rparr>"
    define y where "y = fst (cmd_edit_image_resume cfg (plugin w) (handler_event h) resolved
      (handler_prompt h) new_id)"
    from False have o: "occur cfg env w (Resolved i resolved new_id) =
        w\<lparr>plugin := (plugin w)\<lparr>processing_tasks := (processing_tasks (plugin w))(user \<mapsto> new_id)\<rparr>,
          resolving := rest, running := running w @ [t],
          replies := replies w @ y\<rparr>"
      using \<open>i < length (resolving w)\<close>
      by (auto simp: occur_def cmd_edit_image_resume_def r rest_def t_def user_def h_def y_def)
    have tu: "task_user t = user" and ti: "task_id t = new_id" by (simp_all add: t_def)
    show ?thesis
      unfolding guarded_def
    proof (intro allI conjI)
      fix u
      show "length (handlers_of (occur cfg env w (Resolved i resolved new_id)) u) +
          length (tasks_of (occur cfg env w (Resolved i resolved new_id)) u) \<le> 1"
      proof (cases "u = user")
        case True
        then show ?thesis using none last
          by (simp add: o handlers_of_def tasks_of_def tu)
      next
        case False
        then show ?thesis using a [of u] other [of u]
          by (simp add: o handlers_of_def tasks_of_def tu)
      qed
      show "\<forall>t \<in> set (tasks_of (occur cfg env w (Resolved i resolved new_id)) u).
          processing_tasks (plugin (occur cfg env w (Resolved i resolved new_id))) u =
            Some (task_id t)"
      proof (cases "u = user")
        case True
        then show ?thesis using none by (simp add: o tasks_of_def tu ti)
      next
        case False
        then show ?thesis using b [of u] by (simp add: o tasks_of_def tu)
      qed
      show "processing_tasks (plugin (occur cfg env w (Resolved i resolved new_id))) u \<noteq> None \<longrightarrow>
          tasks_of (occur cfg env w (Resolved i resolved new_id)) u \<noteq> []"
      proof (cases "u = user")
        case True
        then show ?thesis by (simp add: o tasks_of_def tu)
      next
        case False
        then show ?thesis using c [of u] by (simp add: o tasks_of_def tu)
      qed
    qed
  qed
qed

lemma guarded_Finished:
  assumes g: "guarded w"
  shows "guarded (occur cfg env w (Finished i))"
proof (cases "i < length (running w)")
  case False
  then show ?thesis using g by (simp add: occur_def)
next
  case True
  define t where "t = running w ! i"
  define user where "user = task_user t"
  define rest where "rest = take i (running w) @ drop (Suc i) (running w)"
  have own: "Suc (length (filter (\<lambda>t. task_user t = user) rest)) = length (tasks_of w user)"
    unfolding rest_def tasks_of_def
    by (rule filter_without_own [OF True]) (simp add: user_def t_def)
  have other: "filter (\<lambda>t. task_user t = u) rest = tasks_of w u" if "u \<noteq> user" for u
    unfolding rest_def tasks_of_def
    by (rule filter_without_other [OF True]) (use that in \<open>simp add: user_def t_def\<close>)
  from g have a: "length (handlers_of w u) + length (tasks_of w u) \<le> 1"
    and b: "\<forall>t \<in> set (tasks_of w u). processing_tasks (plugin w) u = Some (task_id t)"
    and c: "processing_tasks (plugin w) u \<noteq> None \<longrightarrow> tasks_of w u \<noteq> []" for u
    unfolding guarded_def by blast+
  have "t \<in> set (tasks_of w user)"
    using True by (simp add: tasks_of_def t_def user_def)
  with b have tok: "processing_tasks (plugin w) user = Some (task_id t)" by blast
  from own a [of user]
  have "length (handlers_of w user) = 0 \<and>
      length (filter (\<lambda>t. task_user t = user) rest) = 0"
    by linarith
  then have noh: "handlers_of w user = []"
    and last: "filter (\<lambda>t. task_user t = user) rest = []"
    by (simp_all only: length_0_conv)
  have o: "occur cfg env w (Finished i) =
      w\<lparr>plugin := (plugin w)\<lparr>processing_tasks := (processing_tasks (plugin w))(user := None)\<rparr>,
        running := rest\<rparr>"
    using True tok
    by (simp add: occur_def async_edit_image_def rest_def t_def [symmetric] user_def [symmetric])
  show ?thesis
    unfolding guarded_def
  proof (intro allI conjI)
    fix u
    show "length (handlers_of (occur cfg env w (Finished i)) u) +
        length (tasks_of (occur cfg env w (Finished i)) u) \<le> 1"
    proof (cases "u = user")
      case True
      then show ?thesis using noh last by (simp add: o handlers_of_def tasks_of_def)
    next
      case False
      then show ?thesis using a [of u] other [of u]
        by (simp add: o handlers_of_def tasks_of_def)
    qed
    show "\<forall>t \<in> set (tasks_of (occur cfg env w (Finished i)) u).
        processing_tasks (plugin (occur cfg env w (Finished i))) u = Some (task_id t)"
    proof (cases "u = user")
      case True
      then show ?thesis using last by (simp add: o tasks_of_def)
    next
      case False
      then show ?thesis using b [of u] other [of u] by (simp add: o tasks_of_def)
    qed
    show "processing_tasks (plugin (occur cfg env w (Finished i))) u \<noteq> None \<longrightarrow>
        tasks_of (occur cfg env w (Finished i)) u \<noteq> []"
    proof (cases "u = user")
      case True
      then show ?thesis by (simp add: o)
    next
      case False
      then show ?thesis using c [of u] other [of u] by (simp add: o tasks_of_def)
    qed
  qed
qed

lemma guarded_run:
  "guarded w \<Longrightarrow> unoverlapped cfg env w ocs \<Longrightarrow> guarded (foldl (occur cfg env) w ocs)"
proof (induction ocs arbitrary: w)
  case Nil
  then show ?case by simp
next
  case (Cons oc ocs)
  have "guarded (occur cfg env w oc)"
  proof (cases oc)
    case (Command event prompt now)
    then show ?thesis using Cons.prems guarded_Command by simp
  next
    case (Resolved i resolved new_id)
    then show ?thesis using Cons.prems(1) guarded_Resolved by simp
  next
    case (Finished i)
    then show ?thesis using Cons.prems(1) guarded_Finished by simp
  qed
  then show ?case using Cons.IH Cons.prems(2) by simp
qed

lemma one_task_without_overlap:
  assumes "unoverlapped cfg env initial_world ocs"
  shows "length (tasks_of (foldl (occur cfg env) initial_world ocs) user) \<le> 1"
proof -
  have "guarded (foldl (occur cfg env) initial_world ocs)"
    using guarded_initial assms by (rule guarded_run)
  then have "length (handlers_of (foldl (occur cfg env) initial_world ocs) user) +
      length (tasks_of (foldl (occur cfg env) initial_world ocs) user) \<le> 1"
    unfolding guarded_def by blast
  then show ?thesis by simp
qed

subsection \<open>Overlapping handlers\<close>

text \<open>
  Claim C2. Two commands of one user, the second arriving while the handler of the first
  waits for the resolver: both pass the test of the token, both record a token and both
  create a task, so the user has two tasks at once and neither request is answered with
  the busy notice. When the second command arrives after the first handler has recorded
  its token, it is answered with the busy notice.
\<close>

theorem overlapping_requests_both_accepted:
  "map task_id
     (tasks_of
        (foldl (occur default_config env) initial_world
           [Command \<lparr>get_group_id = Inr None, get_sender_id = (py ''u1'')\<rparr> (py ''p1'') 0,
            Command \<lparr>get_group_id = Inr None, get_sender_id = (py ''u1'')\<rparr> (py ''p2'') 1,
            Resolved 0 ([py ''img1''], None) (py ''id1''),
            Resolved 0 ([py ''img2''], None) (py ''id2'')])
        (py ''u1'')) = [py ''id1'', py ''id2''] \<and>
   replies
     (foldl (occur default_config env) initial_world
        [Command \<lparr>get_group_id = Inr None, get_sender_id = (py ''u1'')\<rparr> (py ''p1'') 0,
         Command \<lparr>get_group_id = Inr None, get_sender_id = (py ''u1'')\<rparr> (py ''p2'') 1,
         Resolved 0 ([py ''img1''], None) (py ''id1''),
         Resolved 0 ([py ''img2''], None) (py ''id2'')]) =
     [Plain (Started (py ''id1'')), Plain (Started (py ''id2''))] \<and>
   replies
     (foldl (occur default_config env) initial_world
        [Command \<lparr>get_group_id = Inr None, get_sender_id = (py ''u1'')\<rparr> (py ''p1'') 0,
         Resolved 0 ([py ''img1''], None) (py ''id1''),
         Command \<lparr>get_group_id = Inr None, get_sender_id = (py ''u1'')\<rparr> (py ''p2'') 1]) =
     [Plain (Started (py ''id1'')), Plain Busy]"
  by (simp add: occur_def initial_world_def tasks_of_def cmd_edit_image_check_def
      cmd_edit_image_resume_def check_group_access_def check_group_access_body_def
      truthy_def default_config_def)

end
